theory Spec2Isabelle
  imports Main "HOL-Library.Char_ord" "HOL-Library.List_Lexorder" "HOL-Library.Multiset"
    "HOL-Library.Log_Nat"
begin

section \<open>The blockchain indexer: data model\<close>

text \<open>
  The development embeds the block validator (\<^verbatim>\<open>validation.ts\<close>), the UTXO ledger and the
  rollback engine (\<^verbatim>\<open>utxo.ts\<close>), the relational schema they run against
  (\<^verbatim>\<open>database.ts\<close>) and the two request handlers that call them (\<^verbatim>\<open>index.ts\<close>).

  Scope of the model. A JavaScript string is a \<open>string\<close>: a sequence of characters each
  held in one code unit, on which the code-unit order of \<^verbatim>\<open>Array.prototype.sort\<close> and
  the byte order coincide. A number field of a request holds an integer, the literal of
  the request body; the JavaScript number it denotes is the double nearest to it
  (\<open>number\<close>), and the sums of \<^verbatim>\<open>validateTransaction\<close> and the results of
  \<^verbatim>\<open>parseFloat\<close> are rounded in the same way. A number that is given to the database
  goes there as the text that \<^verbatim>\<open>toString\<close> prints for it (\<open>sent\<close>). Numbers with a
  fractional part and numbers of magnitude \<open>2 ^ 1024\<close> and more, which JavaScript holds as
  infinities, are outside the model. The columns of the schema have their types: a
  statement that gives an \<^verbatim>\<open>INTEGER\<close> or a \<^verbatim>\<open>BIGINT\<close> a value outside its range fails,
  and so does one that stores into a \<^verbatim>\<open>VARCHAR(n)\<close> a string with a character other than
  a space after its first \<open>n\<close>; the key and foreign-key constraints are modelled as well.
  \<^verbatim>\<open>ORDER BY id\<close> is modelled by the order on strings, which stands for the collation of
  the database; the invariant, the rollback to height 0 and the inverse law use no
  property of that order.
  The digest of the \<^verbatim>\<open>crypto\<close> library is a parameter of the validator.
\<close>

subsection \<open>Request types (\<^verbatim>\<open>types.ts\<close>)\<close>

record Output =
  out_address :: string
  out_value :: int

record Input =
  in_txId :: string
  in_index :: int

record Transaction =
  tx_id :: string
  tx_inputs :: "Input list"
  tx_outputs :: "Output list"

record Block =
  blk_id :: string
  blk_height :: int
  blk_transactions :: "Transaction list"

subsection \<open>The relations of the store (\<^verbatim>\<open>database.ts\<close>)\<close>

text \<open>\<^verbatim>\<open>blocks (id VARCHAR(64) PRIMARY KEY, height INTEGER UNIQUE NOT NULL)\<close>\<close>

record block_row =
  br_id :: string
  br_height :: int

text \<open>\<^verbatim>\<open>transactions (id VARCHAR(64) PRIMARY KEY, block_id VARCHAR(64) NOT NULL
  REFERENCES blocks(id) ON DELETE CASCADE, block_height INTEGER NOT NULL)\<close>\<close>

record transaction_row =
  tr_id :: string
  tr_block_id :: string
  tr_block_height :: int

text \<open>\<^verbatim>\<open>utxos (tx_id VARCHAR(64) NOT NULL, output_index INTEGER NOT NULL,
  address VARCHAR(128) NOT NULL, value BIGINT NOT NULL, is_spent BOOLEAN DEFAULT FALSE,
  spent_in_tx VARCHAR(64), block_height INTEGER NOT NULL, PRIMARY KEY (tx_id, output_index),
  FOREIGN KEY (tx_id) REFERENCES transactions(id) ON DELETE CASCADE)\<close>\<close>

record utxo_row =
  u_tx_id :: string
  u_output_index :: int
  u_address :: string
  u_value :: int
  u_is_spent :: bool
  u_spent_in_tx :: "string option"
  u_block_height :: int

text \<open>
  A table that is scanned is the list of its rows. \<^verbatim>\<open>address_balances (address
  VARCHAR(128) PRIMARY KEY, balance BIGINT NOT NULL DEFAULT 0)\<close> is only ever read and
  written through its key: it is a finite map.
\<close>

record store =
  blocks :: "block_row list"
  transactions :: "transaction_row list"
  utxos :: "utxo_row list"
  address_balances :: "string \<rightharpoonup> int"

definition empty_store :: store where
  "empty_store = \<lparr>blocks = [], transactions = [], utxos = [], address_balances = Map.empty\<rparr>"

subsection \<open>Errors\<close>

text \<open>
  The source throws \<^verbatim>\<open>ValidationError\<close> (answered with status 400) and plain
  \<^verbatim>\<open>Error\<close> (answered with status 500), told apart by their message; the database raises
  on a violated constraint. The messages are named as the specification names them:
  \<^item> \<open>InvalidHeight\<close>: "Invalid block height. Expected ..., got ..."
  \<^item> \<open>InvalidBlockId\<close>: "Invalid block ID. Expected ..., got ..."
  \<^item> \<open>InputNotFound\<close>: "Referenced input ... not found or already spent" (validation) and
    "UTXO ... not found or already spent" (ledger)
  \<^item> \<open>ValueMismatch\<close>: "Transaction ... is invalid: input sum (...) does not equal output sum (...)"
  \<^item> \<open>InvalidRollbackHeight\<close>: "Rollback height cannot be negative" and
    "Cannot rollback to height ... which is higher than current height ..."
\<close>

datatype failure = InvalidHeight | InvalidBlockId | InputNotFound | ValueMismatch
  | InvalidRollbackHeight

datatype error = ValidationError failure | Error failure | DatabaseError

section \<open>Numbers and column types\<close>

definition fl :: "int \<Rightarrow> int" where
  \<comment> \<open>the double nearest to an integer: 53 significant bits, a tie going to the even
      significand\<close>
  "fl x =
     (if bitlen \<bar>x\<bar> \<le> 53 then x
      else let e = nat (bitlen \<bar>x\<bar> - 53);
               q = \<bar>x\<bar> div 2 ^ e;
               r = \<bar>x\<bar> mod 2 ^ e;
               half = 2 ^ (e - 1)
           in sgn x * ((if half < r \<or> (r = half \<and> odd q) then q + 1 else q) * 2 ^ e))"

definition number :: "int \<Rightarrow> int" where
  \<comment> \<open>the JavaScript number that an integer literal of a request body denotes\<close>
  "number v = fl v"

definition parseFloat :: "int \<Rightarrow> int" where
  \<comment> \<open>\<^verbatim>\<open>parseFloat\<close> of the decimal string in which the driver returns a \<^verbatim>\<open>BIGINT\<close>\<close>
  "parseFloat v = fl v"

fun shortest :: "nat \<Rightarrow> int \<Rightarrow> int" where
  \<comment> \<open>among the integers that round to the double \<open>x\<close>, one that ends in the most zeros, up
      to \<open>e\<close> of them; of two such the nearer to \<open>x\<close>, and at the same distance the one whose
      digits before the zeros make an even number\<close>
  "shortest 0 x = x"
| "shortest (Suc e) x =
     (let p = 10 ^ Suc e;
          lo = x div p * p;
          hi = lo + p
      in if fl lo = x \<and> fl hi = x
         then (if x - lo < hi - x then lo
               else if hi - x < x - lo then hi
               else if even (x div p) then lo else hi)
         else if fl lo = x then lo
         else if fl hi = x then hi
         else shortest e x)"

definition sent :: "int \<Rightarrow> int" where
  \<comment> \<open>the integer that the database reads when the driver passes it a number: the driver
      sends \<^verbatim>\<open>val.toString()\<close>, which has as few significant digits as denote the number,
      followed by zeros. From \<open>10 ^ 21\<close> on the text has an exponent, which no integer
      column accepts; the integer given here is then outside the range of the columns
      as well\<close>
  "sent x = sgn x * shortest 20 \<bar>x\<bar>"

definition reduce_sum :: "int list \<Rightarrow> int" where
  \<comment> \<open>\<^verbatim>\<open>values.reduce((sum, value) => sum + value, 0)\<close> on numbers\<close>
  "reduce_sum vs = foldl (\<lambda>sum value. fl (sum + value)) 0 vs"

definition int4 :: "int \<Rightarrow> bool" where
  \<comment> \<open>the range of \<^verbatim>\<open>INTEGER\<close>\<close>
  "int4 x \<longleftrightarrow> - (2 ^ 31) \<le> x \<and> x < 2 ^ 31"

definition int8 :: "int \<Rightarrow> bool" where
  \<comment> \<open>the range of \<^verbatim>\<open>BIGINT\<close>\<close>
  "int8 x \<longleftrightarrow> - (2 ^ 63) \<le> x \<and> x < 2 ^ 63"

definition fits :: "nat \<Rightarrow> string \<Rightarrow> bool" where
  \<comment> \<open>the string can be stored into a \<^verbatim>\<open>VARCHAR(n)\<close>: it has at most \<open>n\<close> characters, or
      only spaces after them\<close>
  "fits n x \<longleftrightarrow> list_all (\<lambda>c. c = CHR '' '') (drop n x)"

definition stored :: "nat \<Rightarrow> string \<Rightarrow> string" where
  \<comment> \<open>what a \<^verbatim>\<open>VARCHAR(n)\<close> then holds: the excess spaces are cut\<close>
  "stored n x = take n x"

section \<open>Statements against the store\<close>

definition utxo_at :: "string \<Rightarrow> int \<Rightarrow> utxo_row \<Rightarrow> bool" where
  \<comment> \<open>\<^verbatim>\<open>WHERE tx_id = $1 AND output_index = $2\<close>\<close>
  "utxo_at t i u \<longleftrightarrow> u_tx_id u = t \<and> u_output_index u = i"

definition select_unspent :: "store \<Rightarrow> string \<Rightarrow> int \<Rightarrow> error + utxo_row list" where
  \<comment> \<open>\<^verbatim>\<open>SELECT ... FROM utxos WHERE tx_id = $1 AND output_index = $2 AND is_spent = FALSE\<close>;
      the second parameter is an \<^verbatim>\<open>INTEGER\<close>\<close>
  "select_unspent s t i =
     (if int4 i then Inr (filter (\<lambda>u. utxo_at t i u \<and> \<not> u_is_spent u) (utxos s))
      else Inl DatabaseError)"

fun list_max :: "int list \<Rightarrow> int option" where
  \<comment> \<open>\<^verbatim>\<open>MAX\<close> of a column: \<^verbatim>\<open>NULL\<close> on no rows\<close>
  "list_max [] = None"
| "list_max (x # xs) = Some (fold max xs x)"

definition currentHeight :: "store \<Rightarrow> int" where
  \<comment> \<open>\<^verbatim>\<open>SELECT MAX(height) as max_height FROM blocks\<close>, then \<^verbatim>\<open>max_height || 0\<close>\<close>
  "currentHeight s = (case list_max (map br_height (blocks s)) of None \<Rightarrow> 0 | Some h \<Rightarrow> h)"

definition insert_block :: "store \<Rightarrow> string \<Rightarrow> int \<Rightarrow> error + store" where
  \<comment> \<open>\<^verbatim>\<open>INSERT INTO blocks (id, height) VALUES ($1, $2)\<close>\<close>
  "insert_block s bid h =
     (if \<not> fits 64 bid \<or> \<not> int4 h \<or>
         stored 64 bid \<in> set (map br_id (blocks s)) \<or> h \<in> set (map br_height (blocks s))
      then Inl DatabaseError
      else Inr (s\<lparr>blocks := blocks s @ [\<lparr>br_id = stored 64 bid, br_height = h\<rparr>]\<rparr>))"

definition insert_transaction :: "store \<Rightarrow> string \<Rightarrow> int \<Rightarrow> error + store" where
  \<comment> \<open>\<^verbatim>\<open>INSERT INTO transactions (id, block_id, block_height)
      VALUES ($1, (SELECT id FROM blocks WHERE height = $2), $2)\<close>: the scalar subquery
      is \<^verbatim>\<open>NULL\<close> on no row, which \<^verbatim>\<open>NOT NULL\<close> rejects, and fails on several rows\<close>
  "insert_transaction s tid h =
     (if \<not> fits 64 tid \<or> \<not> int4 h then Inl DatabaseError
      else case filter (\<lambda>b. br_height b = h) (blocks s) of
        [b] \<Rightarrow>
          if stored 64 tid \<in> set (map tr_id (transactions s)) then Inl DatabaseError
          else Inr (s\<lparr>transactions := transactions s @
                 [\<lparr>tr_id = stored 64 tid, tr_block_id = br_id b, tr_block_height = h\<rparr>]\<rparr>)
      | _ \<Rightarrow> Inl DatabaseError)"

definition insert_utxo :: "store \<Rightarrow> string \<Rightarrow> int \<Rightarrow> string \<Rightarrow> int \<Rightarrow> int \<Rightarrow> error + store" where
  \<comment> \<open>\<^verbatim>\<open>INSERT INTO utxos (tx_id, output_index, address, value, block_height)
      VALUES ($1, $2, $3, $4, $5)\<close>\<close>
  "insert_utxo s t i a v h =
     (if \<not> fits 64 t \<or> \<not> int4 i \<or> \<not> fits 128 a \<or> \<not> int8 v \<or> \<not> int4 h \<or>
         (\<exists>u \<in> set (utxos s). utxo_at (stored 64 t) i u) \<or>
         stored 64 t \<notin> set (map tr_id (transactions s))
      then Inl DatabaseError
      else Inr (s\<lparr>utxos := utxos s @
             [\<lparr>u_tx_id = stored 64 t, u_output_index = i, u_address = stored 128 a, u_value = v,
               u_is_spent = False, u_spent_in_tx = None, u_block_height = h\<rparr>]\<rparr>))"

definition mark_spent :: "store \<Rightarrow> string \<Rightarrow> string \<Rightarrow> int \<Rightarrow> error + store" where
  \<comment> \<open>\<^verbatim>\<open>UPDATE utxos SET is_spent = TRUE, spent_in_tx = $1
      WHERE tx_id = $2 AND output_index = $3\<close>\<close>
  "mark_spent s spendingTxId t i =
     (if \<not> fits 64 spendingTxId \<or> \<not> int4 i then Inl DatabaseError
      else Inr (s\<lparr>utxos := map (\<lambda>r. if utxo_at t i r
                   then r\<lparr>u_is_spent := True, u_spent_in_tx := Some (stored 64 spendingTxId)\<rparr>
                   else r) (utxos s)\<rparr>))"

definition delete_utxos_of :: "store \<Rightarrow> string \<Rightarrow> store" where
  \<comment> \<open>\<^verbatim>\<open>DELETE FROM utxos WHERE tx_id = $1\<close>\<close>
  "delete_utxos_of s t = s\<lparr>utxos := filter (\<lambda>u. u_tx_id u \<noteq> t) (utxos s)\<rparr>"

definition delete_transaction :: "store \<Rightarrow> string \<Rightarrow> store" where
  \<comment> \<open>\<^verbatim>\<open>DELETE FROM transactions WHERE id = $1\<close>, cascading to the UTXOs of the transaction\<close>
  "delete_transaction s t =
     s\<lparr>transactions := filter (\<lambda>r. tr_id r \<noteq> t) (transactions s),
       utxos := filter (\<lambda>u. u_tx_id u \<noteq> t) (utxos s)\<rparr>"

definition delete_blocks_above :: "store \<Rightarrow> int \<Rightarrow> store" where
  \<comment> \<open>\<^verbatim>\<open>DELETE FROM blocks WHERE height > $1\<close>, cascading to the transactions of the deleted
      blocks and to the UTXOs of those transactions\<close>
  "delete_blocks_above s target =
     (let gone = map br_id (filter (\<lambda>b. br_height b > target) (blocks s));
          txgone = map tr_id (filter (\<lambda>r. tr_block_id r \<in> set gone) (transactions s))
      in s\<lparr>blocks := filter (\<lambda>b. \<not> br_height b > target) (blocks s),
            transactions := filter (\<lambda>r. tr_block_id r \<notin> set gone) (transactions s),
            utxos := filter (\<lambda>u. u_tx_id u \<notin> set txgone) (utxos s)\<rparr>)"

definition atomically :: "(store \<Rightarrow> error + store) \<Rightarrow> store \<Rightarrow> error option \<times> store" where
  \<comment> \<open>\<^verbatim>\<open>BEGIN\<close>, the body, then \<^verbatim>\<open>COMMIT\<close>; on a throw \<^verbatim>\<open>ROLLBACK\<close> and rethrow.
      The result is the error thrown, if any, and the store left behind.\<close>
  "atomically body s = (case body s of Inl e \<Rightarrow> (Some e, s) | Inr s' \<Rightarrow> (None, s'))"

section \<open>Block validation (\<^verbatim>\<open>validation.ts\<close>)\<close>

definition digit :: "nat \<Rightarrow> char" where
  "digit d = ''0123456789'' ! d"

fun decimal_nat :: "nat \<Rightarrow> string" where
  "decimal_nat n =
     (if n < 10 then [digit n] else decimal_nat (n div 10) @ [digit (n mod 10)])"

declare decimal_nat.simps [simp del]

definition decimal :: "int \<Rightarrow> string" where
  \<comment> \<open>the string JavaScript concatenates for an integer number of magnitude up to
      \<open>2 ^ 53\<close>; \<^verbatim>\<open>validateBlock\<close> computes the id of a block only when its height is the
      expected one\<close>
  "decimal h = (if h < 0 then CHR ''-'' # decimal_nat (nat (- h)) else decimal_nat (nat h))"

definition validateBlockHeight :: "store \<Rightarrow> int \<Rightarrow> error option" where
  "validateBlockHeight s height =
     (let expectedHeight = currentHeight s + 1
      in if height \<noteq> expectedHeight then Some (ValidationError InvalidHeight) else None)"

definition expectedId :: "(string \<Rightarrow> string) \<Rightarrow> Block \<Rightarrow> string" where
  \<comment> \<open>The first parameter is \<^verbatim>\<open>createHash("sha256").update(_).digest("hex")\<close> of the
      \<^verbatim>\<open>crypto\<close> library.\<close>
  "expectedId sha256hex block =
     (let transactionIds = sort (map tx_id (blk_transactions block));
          hashInput = decimal (blk_height block) @ concat transactionIds
      in sha256hex hashInput)"

definition validateBlockId :: "(string \<Rightarrow> string) \<Rightarrow> Block \<Rightarrow> error option" where
  "validateBlockId sha256hex block =
     (if blk_id block \<noteq> expectedId sha256hex block
      then Some (ValidationError InvalidBlockId) else None)"

definition getInputValue :: "store \<Rightarrow> Input \<Rightarrow> error + int" where
  "getInputValue s input =
     (case select_unspent s (in_txId input) (in_index input) of
        Inl e \<Rightarrow> Inl e
      | Inr [] \<Rightarrow> Inl (ValidationError InputNotFound)
      | Inr (u # _) \<Rightarrow> Inr (parseFloat (u_value u)))"

fun inputValues :: "store \<Rightarrow> Input list \<Rightarrow> error + int list" where
  \<comment> \<open>the first loop of \<^verbatim>\<open>validateTransaction\<close>\<close>
  "inputValues s [] = Inr []"
| "inputValues s (input # rest) =
     (case getInputValue s input of
        Inl e \<Rightarrow> Inl e
      | Inr v \<Rightarrow> (case inputValues s rest of Inl e \<Rightarrow> Inl e | Inr vs \<Rightarrow> Inr (v # vs)))"

definition validateTransaction :: "store \<Rightarrow> Transaction \<Rightarrow> error option" where
  "validateTransaction s transaction =
     (case inputValues s (tx_inputs transaction) of
        Inl e \<Rightarrow> Some e
      | Inr vs \<Rightarrow>
          let outputValues = map (\<lambda>output. number (out_value output)) (tx_outputs transaction);
              totalInputs = reduce_sum vs;
              totalOutputs = reduce_sum outputValues
          in if tx_inputs transaction = [] then None
             else if totalInputs \<noteq> totalOutputs then Some (ValidationError ValueMismatch)
             else None)"

fun validateTransactions :: "store \<Rightarrow> Transaction list \<Rightarrow> error option" where
  \<comment> \<open>the loop of \<^verbatim>\<open>validateBlock\<close>\<close>
  "validateTransactions s [] = None"
| "validateTransactions s (t # ts) =
     (case validateTransaction s t of Some e \<Rightarrow> Some e | None \<Rightarrow> validateTransactions s ts)"

definition validateBlock :: "(string \<Rightarrow> string) \<Rightarrow> store \<Rightarrow> Block \<Rightarrow> error option" where
  "validateBlock sha256hex s block =
     (case validateBlockHeight s (blk_height block) of
        Some e \<Rightarrow> Some e
      | None \<Rightarrow>
          (case validateBlockId sha256hex block of
             Some e \<Rightarrow> Some e
           | None \<Rightarrow> validateTransactions s (blk_transactions block)))"

definition validateRollbackHeight :: "store \<Rightarrow> int \<Rightarrow> error option" where
  "validateRollbackHeight s targetHeight =
     (if targetHeight < 0 then Some (ValidationError InvalidRollbackHeight)
      else if targetHeight > currentHeight s then Some (ValidationError InvalidRollbackHeight)
      else None)"

section \<open>The UTXO ledger (\<^verbatim>\<open>utxo.ts\<close>)\<close>

definition getAddressBalance :: "store \<Rightarrow> string \<Rightarrow> int" where
  \<comment> \<open>\<^verbatim>\<open>parseFloat(result.rows[0]?.balance || 0)\<close>\<close>
  "getAddressBalance s address =
     parseFloat (case address_balances s address of None \<Rightarrow> 0 | Some balance \<Rightarrow> balance)"

definition updateAddressBalance :: "store \<Rightarrow> string \<Rightarrow> int \<Rightarrow> error + store" where
  \<comment> \<open>\<^verbatim>\<open>INSERT INTO address_balances (address, balance) VALUES ($1, $2)
      ON CONFLICT (address) DO UPDATE SET balance = address_balances.balance + $2\<close>: the
      second parameter and the new balance are \<^verbatim>\<open>BIGINT\<close>s\<close>
  "updateAddressBalance s address deltaValue =
     (let balance = (case address_balances s (stored 128 address) of
                       None \<Rightarrow> deltaValue
                     | Some balance \<Rightarrow> balance + deltaValue)
      in if \<not> fits 128 address \<or> \<not> int8 deltaValue \<or> \<not> int8 balance then Inl DatabaseError
         else Inr (s\<lparr>address_balances := (address_balances s)(stored 128 address \<mapsto> balance)\<rparr>))"

definition spendUTXO :: "store \<Rightarrow> Input \<Rightarrow> string \<Rightarrow> error + store" where
  "spendUTXO s input spendingTxId =
     (case select_unspent s (in_txId input) (in_index input) of
        Inl e \<Rightarrow> Inl e
      | Inr [] \<Rightarrow> Inl (Error InputNotFound)
      | Inr (u # _) \<Rightarrow>
          (case mark_spent s spendingTxId (in_txId input) (in_index input) of
             Inl e \<Rightarrow> Inl e
           | Inr s1 \<Rightarrow> updateAddressBalance s1 (u_address u) (sent (- parseFloat (u_value u)))))"

definition createUTXO :: "store \<Rightarrow> string \<Rightarrow> int \<Rightarrow> Output \<Rightarrow> int \<Rightarrow> error + store" where
  "createUTXO s txId index output blockHeight =
     (case insert_utxo s txId index (out_address output) (sent (number (out_value output)))
             blockHeight of
        Inl e \<Rightarrow> Inl e
      | Inr s1 \<Rightarrow>
          updateAddressBalance s1 (out_address output) (sent (number (out_value output))))"

fun spendInputs :: "store \<Rightarrow> Input list \<Rightarrow> string \<Rightarrow> error + store" where
  \<comment> \<open>\<^verbatim>\<open>for (const input of transaction.inputs)\<close>\<close>
  "spendInputs s [] spendingTxId = Inr s"
| "spendInputs s (input # rest) spendingTxId =
     (case spendUTXO s input spendingTxId of
        Inl e \<Rightarrow> Inl e
      | Inr s1 \<Rightarrow> spendInputs s1 rest spendingTxId)"

fun createOutputs :: "store \<Rightarrow> string \<Rightarrow> int \<Rightarrow> Output list \<Rightarrow> int \<Rightarrow> error + store" where
  \<comment> \<open>\<^verbatim>\<open>for (let index = 0; index < transaction.outputs.length; index++)\<close>, from the
      index given\<close>
  "createOutputs s txId index [] blockHeight = Inr s"
| "createOutputs s txId index (output # rest) blockHeight =
     (case createUTXO s txId index output blockHeight of
        Inl e \<Rightarrow> Inl e
      | Inr s1 \<Rightarrow> createOutputs s1 txId (index + 1) rest blockHeight)"

definition processTransaction :: "store \<Rightarrow> Transaction \<Rightarrow> int \<Rightarrow> error + store" where
  "processTransaction s transaction blockHeight =
     (case insert_transaction s (tx_id transaction) blockHeight of
        Inl e \<Rightarrow> Inl e
      | Inr s1 \<Rightarrow>
          (case spendInputs s1 (tx_inputs transaction) (tx_id transaction) of
             Inl e \<Rightarrow> Inl e
           | Inr s2 \<Rightarrow>
               createOutputs s2 (tx_id transaction) 0 (tx_outputs transaction) blockHeight))"

fun processTransactions :: "store \<Rightarrow> Transaction list \<Rightarrow> int \<Rightarrow> error + store" where
  \<comment> \<open>\<^verbatim>\<open>for (const transaction of block.transactions)\<close>\<close>
  "processTransactions s [] blockHeight = Inr s"
| "processTransactions s (t # ts) blockHeight =
     (case processTransaction s t blockHeight of
        Inl e \<Rightarrow> Inl e
      | Inr s1 \<Rightarrow> processTransactions s1 ts blockHeight)"

definition applyBlock :: "Block \<Rightarrow> store \<Rightarrow> error + store" where
  \<comment> \<open>the statements of \<^verbatim>\<open>processBlock\<close> between \<^verbatim>\<open>BEGIN\<close> and \<^verbatim>\<open>COMMIT\<close>\<close>
  "applyBlock block s =
     (case insert_block s (blk_id block) (blk_height block) of
        Inl e \<Rightarrow> Inl e
      | Inr s1 \<Rightarrow> processTransactions s1 (blk_transactions block) (blk_height block))"

definition processBlock :: "store \<Rightarrow> Block \<Rightarrow> error option \<times> store" where
  "processBlock s block = atomically (applyBlock block) s"

section \<open>The rollback engine (\<^verbatim>\<open>utxo.ts\<close>)\<close>

definition unspend :: "utxo_row \<Rightarrow> utxo_row" where
  \<comment> \<open>\<^verbatim>\<open>SET is_spent = FALSE, spent_in_tx = NULL\<close>\<close>
  "unspend r = r\<lparr>u_is_spent := False, u_spent_in_tx := None\<rparr>"

fun removeOutputs :: "store \<Rightarrow> utxo_row list \<Rightarrow> error + store" where
  \<comment> \<open>\<^verbatim>\<open>for (const output of outputs.rows)\<close>\<close>
  "removeOutputs s [] = Inr s"
| "removeOutputs s (output # rest) =
     (case updateAddressBalance s (u_address output) (sent (- parseFloat (u_value output))) of
        Inl e \<Rightarrow> Inl e
      | Inr s1 \<Rightarrow> removeOutputs s1 rest)"

fun restoreInputs :: "store \<Rightarrow> utxo_row list \<Rightarrow> error + store" where
  \<comment> \<open>\<^verbatim>\<open>for (const utxo of spentUTXOs.rows)\<close>\<close>
  "restoreInputs s [] = Inr s"
| "restoreInputs s (utxo # rest) =
     (let s1 = s\<lparr>utxos := map (\<lambda>r. if utxo_at (u_tx_id utxo) (u_output_index utxo) r
                                   then unspend r else r) (utxos s)\<rparr>
      in case updateAddressBalance s1 (u_address utxo) (sent (parseFloat (u_value utxo))) of
           Inl e \<Rightarrow> Inl e
         | Inr s2 \<Rightarrow> restoreInputs s2 rest)"

definition rollbackTransaction :: "store \<Rightarrow> string \<Rightarrow> error + store" where
  "rollbackTransaction s transactionId =
     (let outputs = filter (\<lambda>u. u_tx_id u = transactionId) (utxos s)
      in case removeOutputs s outputs of
           Inl e \<Rightarrow> Inl e
         | Inr s1 \<Rightarrow>
             let s2 = delete_utxos_of s1 transactionId;
                 spentUTXOs = filter (\<lambda>u. u_spent_in_tx u = Some transactionId) (utxos s2)
             in case restoreInputs s2 spentUTXOs of
                  Inl e \<Rightarrow> Inl e
                | Inr s3 \<Rightarrow> Inr (delete_transaction s3 transactionId))"

definition transactionsOfBlock :: "store \<Rightarrow> string \<Rightarrow> string list" where
  \<comment> \<open>\<^verbatim>\<open>SELECT id FROM transactions WHERE block_id = $1 ORDER BY id\<close>\<close>
  "transactionsOfBlock s blockId =
     sort (map tr_id (filter (\<lambda>r. tr_block_id r = blockId) (transactions s)))"

fun rollbackTransactions :: "store \<Rightarrow> string list \<Rightarrow> error + store" where
  \<comment> \<open>\<^verbatim>\<open>for (const tx of transactions.rows)\<close>\<close>
  "rollbackTransactions s [] = Inr s"
| "rollbackTransactions s (t # rest) =
     (case rollbackTransaction s t of
        Inl e \<Rightarrow> Inl e
      | Inr s1 \<Rightarrow> rollbackTransactions s1 rest)"

definition rollbackBlock :: "store \<Rightarrow> string \<Rightarrow> int \<Rightarrow> error + store" where
  "rollbackBlock s blockId blockHeight = rollbackTransactions s (transactionsOfBlock s blockId)"

definition blocksToRemove :: "store \<Rightarrow> int \<Rightarrow> block_row list" where
  \<comment> \<open>the rows of \<^verbatim>\<open>SELECT id, height FROM blocks WHERE height > $1 ORDER BY height DESC\<close>\<close>
  "blocksToRemove s targetHeight =
     rev (sort_key br_height (filter (\<lambda>b. br_height b > targetHeight) (blocks s)))"

fun rollbackBlocks :: "store \<Rightarrow> block_row list \<Rightarrow> error + store" where
  \<comment> \<open>\<^verbatim>\<open>for (const block of blocksToRemove.rows)\<close>\<close>
  "rollbackBlocks s [] = Inr s"
| "rollbackBlocks s (block # rest) =
     (case rollbackBlock s (br_id block) (br_height block) of
        Inl e \<Rightarrow> Inl e
      | Inr s1 \<Rightarrow> rollbackBlocks s1 rest)"

definition undoBlocks :: "int \<Rightarrow> store \<Rightarrow> error + store" where
  \<comment> \<open>the statements of \<^verbatim>\<open>rollbackToHeight\<close> between \<^verbatim>\<open>BEGIN\<close> and \<^verbatim>\<open>COMMIT\<close>; the
      parameter of its queries is an \<^verbatim>\<open>INTEGER\<close>\<close>
  "undoBlocks targetHeight s =
     (if \<not> int4 targetHeight then Inl DatabaseError
      else case rollbackBlocks s (blocksToRemove s targetHeight) of
        Inl e \<Rightarrow> Inl e
      | Inr s1 \<Rightarrow> Inr (delete_blocks_above s1 targetHeight))"

definition rollbackToHeight :: "store \<Rightarrow> int \<Rightarrow> error option \<times> store" where
  "rollbackToHeight s targetHeight = atomically (undoBlocks targetHeight) s"

section \<open>The request handlers (\<^verbatim>\<open>index.ts\<close>)\<close>

definition submitBlock :: "(string \<Rightarrow> string) \<Rightarrow> store \<Rightarrow> Block \<Rightarrow> error option \<times> store" where
  \<comment> \<open>\<^verbatim>\<open>POST /blocks\<close>: \<^verbatim>\<open>validateBlock\<close>, then \<^verbatim>\<open>processBlock\<close>\<close>
  "submitBlock sha256hex s block =
     (case validateBlock sha256hex s block of
        Some e \<Rightarrow> (Some e, s)
      | None \<Rightarrow> processBlock s block)"

definition rollback :: "store \<Rightarrow> int \<Rightarrow> error option \<times> store" where
  \<comment> \<open>\<^verbatim>\<open>POST /rollback\<close> on a height that parsed as a non-negative number:
      \<^verbatim>\<open>validateRollbackHeight\<close>, then \<^verbatim>\<open>rollbackToHeight\<close>\<close>
  "rollback s heightNum =
     (case validateRollbackHeight s heightNum of
        Some e \<Rightarrow> (Some e, s)
      | None \<Rightarrow> rollbackToHeight s heightNum)"

section \<open>The ledger invariant\<close>

definition key :: "utxo_row \<Rightarrow> string \<times> int" where
  \<comment> \<open>the primary key of a row of \<^verbatim>\<open>utxos\<close>\<close>
  "key u = (u_tx_id u, u_output_index u)"

definition stored_balance :: "store \<Rightarrow> string \<Rightarrow> int" where
  \<comment> \<open>the balance stored for an address, 0 for an address without a row\<close>
  "stored_balance s a = (case address_balances s a of None \<Rightarrow> 0 | Some balance \<Rightarrow> balance)"

definition unspent_sum :: "store \<Rightarrow> string \<Rightarrow> int" where
  \<comment> \<open>the sum of the values of the unspent outputs an address owns\<close>
  "unspent_sum s a =
     sum_list (map u_value (filter (\<lambda>u. u_address u = a \<and> \<not> u_is_spent u) (utxos s)))"

definition balanced :: "store \<Rightarrow> bool" where
  "balanced s \<longleftrightarrow> (\<forall>a. stored_balance s a = unspent_sum s a)"

definition consistent :: "store \<Rightarrow> bool" where
  \<comment> \<open>the key constraints of the schema; every transaction row names a stored block and
      carries its height; every UTXO row names a stored transaction and carries its height\<close>
  "consistent s \<longleftrightarrow>
     distinct (map key (utxos s)) \<and>
     distinct (map tr_id (transactions s)) \<and>
     distinct (map br_id (blocks s)) \<and>
     distinct (map br_height (blocks s)) \<and>
     (\<forall>r \<in> set (transactions s). \<exists>b \<in> set (blocks s).
        br_id b = tr_block_id r \<and> br_height b = tr_block_height r) \<and>
     (\<forall>u \<in> set (utxos s). \<exists>r \<in> set (transactions s).
        tr_id r = u_tx_id u \<and> tr_block_height r = u_block_height u)"

definition typed :: "store \<Rightarrow> bool" where
  \<comment> \<open>every value was sent as a JavaScript number, so that reading it and sending it
      again gives the same value, and every address is held by a \<^verbatim>\<open>VARCHAR(128)\<close>\<close>
  "typed s \<longleftrightarrow>
     (\<forall>u \<in> set (utxos s).
        sent (parseFloat (u_value u)) = u_value u \<and> length (u_address u) \<le> 128)"

definition spends_ok :: "store \<Rightarrow> bool" where
  \<comment> \<open>a row is flagged spent exactly when it names its spender, and the spender is a
      stored transaction of a later block\<close>
  "spends_ok s \<longleftrightarrow>
     (\<forall>u \<in> set (utxos s).
        (u_is_spent u \<longleftrightarrow> u_spent_in_tx u \<noteq> None) \<and>
        (\<forall>t. u_spent_in_tx u = Some t \<longrightarrow>
           (\<exists>r \<in> set (transactions s). tr_id r = t \<and> u_block_height u < tr_block_height r)))"

definition heights_ok :: "store \<Rightarrow> bool" where
  "heights_ok s \<longleftrightarrow> (\<forall>b \<in> set (blocks s). 0 < br_height b)"

definition ledger_inv :: "store \<Rightarrow> bool" where
  "ledger_inv s \<longleftrightarrow> consistent s \<and> typed s \<and> spends_ok s \<and> heights_ok s \<and> balanced s"



definition has_tx :: "store \<Rightarrow> string \<Rightarrow> int \<Rightarrow> bool" where
  \<comment> \<open>the transaction is stored, at this height\<close>
  "has_tx s t h \<longleftrightarrow> (\<exists>r \<in> set (transactions s). tr_id r = t \<and> tr_block_height r = h)"

definition old_rows :: "(string \<times> int) set \<Rightarrow> int \<Rightarrow> store \<Rightarrow> bool" where
  \<comment> \<open>the outputs with these keys are stored, and were created below this height\<close>
  "old_rows K h s \<longleftrightarrow> (\<forall>k \<in> K. \<exists>u \<in> set (utxos s). key u = k \<and> u_block_height u < h)"

definition undone :: "string set \<Rightarrow> utxo_row list \<Rightarrow> utxo_row list" where
  \<comment> \<open>the rows left when the transactions of the set are undone: their outputs are
      gone and the outputs they spent are unspent again\<close>
  "undone T us =
     map (\<lambda>r. if u_spent_in_tx r \<in> Some ` T then unspend r else r)
       (filter (\<lambda>r. u_tx_id r \<notin> T) us)"

definition input_key :: "Input \<Rightarrow> string \<times> int" where
  \<comment> \<open>the output an input references\<close>
  "input_key i = (in_txId i, in_index i)"

definition block_inputs :: "Block \<Rightarrow> Input list" where
  \<comment> \<open>the inputs of a block, in the order \<^verbatim>\<open>processBlock\<close> spends them\<close>
  "block_inputs b = concat (map tx_inputs (blk_transactions b))"

definition resolves :: "store \<Rightarrow> Input \<Rightarrow> bool" where
  \<comment> \<open>the query of \<^verbatim>\<open>getInputValue\<close> and of \<^verbatim>\<open>spendUTXO\<close> returns a row for the input\<close>
  "resolves s i \<longleftrightarrow>
     int4 (in_index i) \<and> (\<exists>u \<in> set (utxos s). key u = input_key i \<and> \<not> u_is_spent u)"

definition gone :: "store \<Rightarrow> string \<times> int \<Rightarrow> bool" where
  \<comment> \<open>the output is stored and flagged spent\<close>
  "gone s k \<longleftrightarrow>
     (\<exists>u \<in> set (utxos s). key u = k) \<and> (\<forall>u \<in> set (utxos s). key u = k \<longrightarrow> u_is_spent u)"

definition same_ledger :: "store \<Rightarrow> store \<Rightarrow> bool" where
  \<comment> \<open>the same transactions, the same UTXO rows and the same balance of every address\<close>
  "same_ledger s t \<longleftrightarrow>
     transactions s = transactions t \<and> utxos s = utxos t \<and>
     (\<forall>a. stored_balance s a = stored_balance t a)"


inductive reachable :: "(string \<Rightarrow> string) \<Rightarrow> store \<Rightarrow> bool" for sha256hex where
  \<comment> \<open>the ledgers the service can hold: the empty one, and those left by an accepted
      \<^verbatim>\<open>POST /blocks\<close> or by a rollback\<close>
  reachable_empty: "reachable sha256hex empty_store"
| reachable_block: "reachable sha256hex s \<Longrightarrow> submitBlock sha256hex s block = (None, s')
     \<Longrightarrow> reachable sha256hex s'"
| reachable_rollback: "reachable sha256hex s \<Longrightarrow> rollbackToHeight s targetHeight = (None, s')
     \<Longrightarrow> reachable sha256hex s'"

fun submitAll :: "(string \<Rightarrow> string) \<Rightarrow> store \<Rightarrow> Block list \<Rightarrow> store option" where
  \<comment> \<open>a sequence of submissions, every one accepted\<close>
  "submitAll sha256hex s [] = Some s"
| "submitAll sha256hex s (block # rest) =
     (case submitBlock sha256hex s block of
        (None, s') \<Rightarrow> submitAll sha256hex s' rest
      | (Some e, s') \<Rightarrow> None)"



fun undoTrace :: "store \<Rightarrow> block_row list \<Rightarrow> (int \<times> string) list" where
  \<comment> \<open>the transactions that the loops of \<^verbatim>\<open>rollbackToHeight\<close> go through over the given
      blocks, in order, each with the height of its block; a block is read once the
      blocks before it are undone\<close>
  "undoTrace s [] = []"
| "undoTrace s (block # rest) =
     map (\<lambda>t. (br_height block, t)) (transactionsOfBlock s (br_id block)) @
     (case rollbackBlock s (br_id block) (br_height block) of
        Inl e \<Rightarrow> []
      | Inr s1 \<Rightarrow> undoTrace s1 rest)"

section \<open>Fixtures\<close>

text \<open>
  \<open>createTestTransaction\<close> and \<open>createTestBlock\<close> are the helpers of the test suite, and
  \<open>genesis10\<close>, \<open>spend64\<close> and \<open>spend65\<close> are blocks of its tests; the other blocks are
  built with the same helpers. The digest of the fixtures is the identity, so that a
  block id is its own hash input.
\<close>

definition createTestTransaction :: "string \<Rightarrow> Input list \<Rightarrow> Output list \<Rightarrow> Transaction" where
  "createTestTransaction i inputs outputs = \<lparr>tx_id = i, tx_inputs = inputs, tx_outputs = outputs\<rparr>"

definition createTestBlock :: "(string \<Rightarrow> string) \<Rightarrow> int \<Rightarrow> Transaction list \<Rightarrow> Block" where
  "createTestBlock sha256hex height txs =
     (let transactionIds = sort (map tx_id txs);
          hashInput = decimal height @ concat transactionIds
      in \<lparr>blk_id = sha256hex hashInput, blk_height = height, blk_transactions = txs\<rparr>)"

definition genesis10 :: Block where
  \<comment> \<open>the first block of "should validate transaction input/output balance"\<close>
  "genesis10 = createTestBlock (\<lambda>x. x) 1
     [createTestTransaction ''tx1'' [] [\<lparr>out_address = ''addr1'', out_value = 10\<rparr>]]"

definition spend64 :: Block where
  \<comment> \<open>its second block: outputs 6 + 4 for an input of 10\<close>
  "spend64 = createTestBlock (\<lambda>x. x) 2
     [createTestTransaction ''tx2'' [\<lparr>in_txId = ''tx1'', in_index = 0\<rparr>]
        [\<lparr>out_address = ''addr2'', out_value = 6\<rparr>, \<lparr>out_address = ''addr3'', out_value = 4\<rparr>]]"

definition spend65 :: Block where
  \<comment> \<open>the second block of "should reject transaction with mismatched input/output
      values": outputs 6 + 5 for an input of 10\<close>
  "spend65 = createTestBlock (\<lambda>x. x) 2
     [createTestTransaction ''tx2'' [\<lparr>in_txId = ''tx1'', in_index = 0\<rparr>]
        [\<lparr>out_address = ''addr2'', out_value = 6\<rparr>, \<lparr>out_address = ''addr3'', out_value = 5\<rparr>]]"

definition ledger10 :: store where
  \<comment> \<open>the store after \<open>genesis10\<close>\<close>
  "ledger10 =
     \<lparr>blocks = [\<lparr>br_id = ''1tx1'', br_height = 1\<rparr>],
      transactions = [\<lparr>tr_id = ''tx1'', tr_block_id = ''1tx1'', tr_block_height = 1\<rparr>],
      utxos = [\<lparr>u_tx_id = ''tx1'', u_output_index = 0, u_address = ''addr1'', u_value = 10,
                u_is_spent = False, u_spent_in_tx = None, u_block_height = 1\<rparr>],
      address_balances = [''addr1'' \<mapsto> 10]\<rparr>"

definition twoMints :: Block where
  \<comment> \<open>a block of two transactions without inputs, applied in the order \<open>a\<close>, \<open>b\<close>\<close>
  "twoMints = createTestBlock (\<lambda>x. x) 1
     [createTestTransaction ''a'' [] [\<lparr>out_address = ''x'', out_value = 10\<rparr>],
      createTestTransaction ''b'' [] [\<lparr>out_address = ''y'', out_value = 10\<rparr>]]"

definition ledgerTwo :: store where
  \<comment> \<open>the store after \<open>twoMints\<close>\<close>
  "ledgerTwo =
     \<lparr>blocks = [\<lparr>br_id = ''1ab'', br_height = 1\<rparr>],
      transactions = [\<lparr>tr_id = ''a'', tr_block_id = ''1ab'', tr_block_height = 1\<rparr>,
                      \<lparr>tr_id = ''b'', tr_block_id = ''1ab'', tr_block_height = 1\<rparr>],
      utxos = [\<lparr>u_tx_id = ''a'', u_output_index = 0, u_address = ''x'', u_value = 10,
                u_is_spent = False, u_spent_in_tx = None, u_block_height = 1\<rparr>,
               \<lparr>u_tx_id = ''b'', u_output_index = 0, u_address = ''y'', u_value = 10,
                u_is_spent = False, u_spent_in_tx = None, u_block_height = 1\<rparr>],
      address_balances = [''x'' \<mapsto> 10, ''y'' \<mapsto> 10]\<rparr>"

definition ledger64 :: store where
  \<comment> \<open>the store after \<open>genesis10\<close> and \<open>spend64\<close>\<close>
  "ledger64 =
     \<lparr>blocks = [\<lparr>br_id = ''1tx1'', br_height = 1\<rparr>, \<lparr>br_id = ''2tx2'', br_height = 2\<rparr>],
      transactions = [\<lparr>tr_id = ''tx1'', tr_block_id = ''1tx1'', tr_block_height = 1\<rparr>,
                      \<lparr>tr_id = ''tx2'', tr_block_id = ''2tx2'', tr_block_height = 2\<rparr>],
      utxos = [\<lparr>u_tx_id = ''tx1'', u_output_index = 0, u_address = ''addr1'', u_value = 10,
                u_is_spent = True, u_spent_in_tx = Some ''tx2'', u_block_height = 1\<rparr>,
               \<lparr>u_tx_id = ''tx2'', u_output_index = 0, u_address = ''addr2'', u_value = 6,
                u_is_spent = False, u_spent_in_tx = None, u_block_height = 2\<rparr>,
               \<lparr>u_tx_id = ''tx2'', u_output_index = 1, u_address = ''addr3'', u_value = 4,
                u_is_spent = False, u_spent_in_tx = None, u_block_height = 2\<rparr>],
      address_balances = [''addr1'' \<mapsto> 0, ''addr2'' \<mapsto> 6, ''addr3'' \<mapsto> 4]\<rparr>"

definition chained :: Block where
  \<comment> \<open>a block whose second transaction spends the output of its first\<close>
  "chained = createTestBlock (\<lambda>x. x) 1
     [createTestTransaction ''a'' [] [\<lparr>out_address = ''x'', out_value = 10\<rparr>],
      createTestTransaction ''b'' [\<lparr>in_txId = ''a'', in_index = 0\<rparr>]
        [\<lparr>out_address = ''y'', out_value = 10\<rparr>]]"

definition forward :: Block where
  \<comment> \<open>a block whose first transaction spends the output of its second\<close>
  "forward = createTestBlock (\<lambda>x. x) 1
     [createTestTransaction ''b'' [\<lparr>in_txId = ''a'', in_index = 0\<rparr>]
        [\<lparr>out_address = ''y'', out_value = 10\<rparr>],
      createTestTransaction ''a'' [] [\<lparr>out_address = ''x'', out_value = 10\<rparr>]]"

definition twice :: Block where
  \<comment> \<open>a block whose transaction names the output \<open>tx1:0\<close> in two inputs\<close>
  "twice = createTestBlock (\<lambda>x. x) 2
     [createTestTransaction ''tx2''
        [\<lparr>in_txId = ''tx1'', in_index = 0\<rparr>, \<lparr>in_txId = ''tx1'', in_index = 0\<rparr>]
        [\<lparr>out_address = ''addr2'', out_value = 20\<rparr>]]"

definition again :: Block where
  \<comment> \<open>a block at height 3 that spends \<open>tx1:0\<close>, which \<open>spend64\<close> spent\<close>
  "again = createTestBlock (\<lambda>x. x) 3
     [createTestTransaction ''tx3'' [\<lparr>in_txId = ''tx1'', in_index = 0\<rparr>]
        [\<lparr>out_address = ''addr4'', out_value = 10\<rparr>]]"

definition twice10 :: Block where
  \<comment> \<open>the same two inputs for one output of 10, the value of \<open>tx1:0\<close>\<close>
  "twice10 = createTestBlock (\<lambda>x. x) 2
     [createTestTransaction ''tx2''
        [\<lparr>in_txId = ''tx1'', in_index = 0\<rparr>, \<lparr>in_txId = ''tx1'', in_index = 0\<rparr>]
        [\<lparr>out_address = ''addr2'', out_value = 10\<rparr>]]"

definition outOfRange :: Block where
  \<comment> \<open>a block at height 2 whose transaction names an index that is no \<^verbatim>\<open>INTEGER\<close>, and
      then \<open>tx1:0\<close>\<close>
  "outOfRange = createTestBlock (\<lambda>x. x) 2
     [createTestTransaction ''tx2''
        [\<lparr>in_txId = ''tx1'', in_index = 2147483648\<rparr>, \<lparr>in_txId = ''tx1'', in_index = 0\<rparr>]
        [\<lparr>out_address = ''addr2'', out_value = 10\<rparr>]]"

definition mint53 :: Block where
  \<comment> \<open>a block that creates an output of \<open>2 ^ 53\<close> and an output of 1\<close>
  "mint53 = createTestBlock (\<lambda>x. x) 1
     [createTestTransaction ''m'' []
        [\<lparr>out_address = ''x'', out_value = 2 ^ 53\<rparr>, \<lparr>out_address = ''x'', out_value = 1\<rparr>]]"

definition spend53 :: Block where
  \<comment> \<open>a block that spends both for one output of \<open>2 ^ 53\<close>\<close>
  "spend53 = createTestBlock (\<lambda>x. x) 2
     [createTestTransaction ''s'' [\<lparr>in_txId = ''m'', in_index = 0\<rparr>, \<lparr>in_txId = ''m'', in_index = 1\<rparr>]
        [\<lparr>out_address = ''y'', out_value = 2 ^ 53\<rparr>]]"

definition mintLarge :: Block where
  \<comment> \<open>a block that creates an output of \<open>5 * 10 ^ 18\<close> for \<open>x\<close>; that number is a
      double\<close>
  "mintLarge = createTestBlock (\<lambda>x. x) 1
     [createTestTransaction ''m1'' []
        [\<lparr>out_address = ''x'', out_value = 5000000000000000000\<rparr>]]"

definition moveLarge :: Block where
  \<comment> \<open>a block that moves it to \<open>y\<close> in its transaction \<open>a\<close>, and then creates another
      output of \<open>5 * 10 ^ 18\<close> for \<open>x\<close> in its transaction \<open>b\<close>\<close>
  "moveLarge = createTestBlock (\<lambda>x. x) 2
     [createTestTransaction ''a'' [\<lparr>in_txId = ''m1'', in_index = 0\<rparr>]
        [\<lparr>out_address = ''y'', out_value = 5000000000000000000\<rparr>],
      createTestTransaction ''b'' []
        [\<lparr>out_address = ''x'', out_value = 5000000000000000000\<rparr>]]"

definition ledgerLarge :: store where
  \<comment> \<open>the store after the submission of \<open>mintLarge\<close> and of \<open>moveLarge\<close>\<close>
  "ledgerLarge =
     \<lparr>blocks = [\<lparr>br_id = ''1m1'', br_height = 1\<rparr>, \<lparr>br_id = ''2ab'', br_height = 2\<rparr>],
      transactions = [\<lparr>tr_id = ''m1'', tr_block_id = ''1m1'', tr_block_height = 1\<rparr>,
                      \<lparr>tr_id = ''a'', tr_block_id = ''2ab'', tr_block_height = 2\<rparr>,
                      \<lparr>tr_id = ''b'', tr_block_id = ''2ab'', tr_block_height = 2\<rparr>],
      utxos = [\<lparr>u_tx_id = ''m1'', u_output_index = 0, u_address = ''x'',
                u_value = 5000000000000000000,
                u_is_spent = True, u_spent_in_tx = Some ''a'', u_block_height = 1\<rparr>,
               \<lparr>u_tx_id = ''a'', u_output_index = 0, u_address = ''y'',
                u_value = 5000000000000000000,
                u_is_spent = False, u_spent_in_tx = None, u_block_height = 2\<rparr>,
               \<lparr>u_tx_id = ''b'', u_output_index = 0, u_address = ''x'',
                u_value = 5000000000000000000,
                u_is_spent = False, u_spent_in_tx = None, u_block_height = 2\<rparr>],
      address_balances =
        [''x'' \<mapsto> 5000000000000000000, ''y'' \<mapsto> 5000000000000000000]\<rparr>"

section \<open>Rounding to a double\<close>

lemma div_less_bound: "(x::int) < P * 2 ^ E \<Longrightarrow> x div 2 ^ E < P"
proof -
  assume a: "x < P * 2 ^ E"
  have "0 \<le> x mod 2 ^ E" by simp
  then have le: "x div 2 ^ E * 2 ^ E \<le> x"
    using div_mult_mod_eq [of x "2 ^ E"] by linarith
  show ?thesis
  proof (rule ccontr)
    assume "\<not> x div 2 ^ E < P"
    then have "P \<le> x div 2 ^ E" by simp
    then have "P * 2 ^ E \<le> x div 2 ^ E * 2 ^ E" by (intro mult_right_mono) simp_all
    with le a show False by simp
  qed
qed

lemma bitlen_small: "0 \<le> m \<Longrightarrow> m < 2 ^ 53 \<Longrightarrow> bitlen m \<le> 53"
  using bitlen_le_iff_power [of m 53] by simp

lemma fl_exact:
  assumes "\<bar>x\<bar> = m * 2 ^ e" "0 \<le> m" "m \<le> 2 ^ 53"
  shows "fl x = x"
proof (cases "bitlen \<bar>x\<bar> \<le> 53")
  case True
  then show ?thesis by (simp add: fl_def)
next
  case False
  define E where "E = nat (bitlen \<bar>x\<bar> - 53)"
  from False have E: "1 \<le> E" by (simp add: E_def)
  from False have pos: "0 < \<bar>x\<bar>" using bitlen_eq_zero_iff [of "\<bar>x\<bar>"] by (cases "x = 0") auto
  with assms have mpos: "0 < m" by (metis mult_zero_left less_le)
  have "bitlen \<bar>x\<bar> \<le> 54 + int e"
  proof (cases "m = 2 ^ 53")
    case True
    with assms have "\<bar>x\<bar> = 1 * 2 ^ (53 + e)" by (simp add: power_add)
    then have "bitlen \<bar>x\<bar> = bitlen 1 + int (53 + e)" by (simp only: bitlen_pow2)
    moreover have "bitlen 1 = 1" by (simp add: bitlen_alt_def)
    ultimately show ?thesis by simp
  next
    case False
    with assms have "m < 2 ^ 53" by simp
    with assms have "bitlen m \<le> 53" by (simp add: bitlen_small)
    moreover from assms mpos have "bitlen \<bar>x\<bar> = bitlen m + int e" by simp
    ultimately show ?thesis by simp
  qed
  moreover have "m = 2 ^ 53 \<or> bitlen \<bar>x\<bar> \<le> 53 + int e"
  proof (cases "m = 2 ^ 53")
    case False
    with assms have "m < 2 ^ 53" by simp
    with assms have "bitlen m \<le> 53" by (simp add: bitlen_small)
    moreover from assms mpos have "bitlen \<bar>x\<bar> = bitlen m + int e" by simp
    ultimately show ?thesis by simp
  qed simp
  ultimately have "\<exists>c. \<bar>x\<bar> = c * 2 ^ E"
  proof (cases "m = 2 ^ 53")
    case True
    assume "bitlen \<bar>x\<bar> \<le> 54 + int e"
    then have "E \<le> 53 + e" by (simp add: E_def)
    then obtain d where "53 + e = d + E" by (metis le_add_diff_inverse2)
    with True assms have "\<bar>x\<bar> = 2 ^ d * 2 ^ E" by (metis power_add)
    then show ?thesis by blast
  next
    case False
    assume "m = 2 ^ 53 \<or> bitlen \<bar>x\<bar> \<le> 53 + int e"
    with False have "E \<le> e" by (simp add: E_def)
    then obtain d where "e = d + E" by (metis le_add_diff_inverse2)
    with assms have "\<bar>x\<bar> = (m * 2 ^ d) * 2 ^ E" by (simp add: power_add)
    then show ?thesis by blast
  qed
  then obtain c where c: "\<bar>x\<bar> = c * 2 ^ E" by blast
  then have r: "\<bar>x\<bar> mod 2 ^ E = 0" and q: "\<bar>x\<bar> div 2 ^ E * 2 ^ E = \<bar>x\<bar>" by simp_all
  have h: "(0::int) < 2 ^ (E - 1)" by simp
  from False have "fl x = sgn x * (\<bar>x\<bar> div 2 ^ E * 2 ^ E)"
    unfolding fl_def Let_def E_def [symmetric] using r h by simp
  with q show ?thesis by (simp add: mult_sgn_abs)
qed

lemma fl_small: "\<bar>x\<bar> \<le> 2 ^ 53 \<Longrightarrow> fl x = x"
  using fl_exact [of x "\<bar>x\<bar>" 0] by simp

lemma fl_shape: "\<exists>m e. \<bar>fl x\<bar> = m * 2 ^ e \<and> 0 \<le> m \<and> m \<le> 2 ^ 53"
proof (cases "bitlen \<bar>x\<bar> \<le> 53")
  case True
  have "\<bar>x\<bar> < 2 ^ 53"
  proof (cases "x = 0")
    case False
    then have "\<bar>x\<bar> < 2 ^ nat (bitlen \<bar>x\<bar>)" using bitlen_bounds [of "\<bar>x\<bar>"] by simp
    also from True have "\<dots> \<le> (2::int) ^ 53" by (intro power_increasing) simp_all
    finally show ?thesis .
  qed simp
  with True have "\<bar>fl x\<bar> = \<bar>x\<bar> * 2 ^ 0 \<and> 0 \<le> \<bar>x\<bar> \<and> \<bar>x\<bar> \<le> 2 ^ 53" by (simp add: fl_def)
  then show ?thesis by blast
next
  case False
  define E where "E = nat (bitlen \<bar>x\<bar> - 53)"
  define q where "q = \<bar>x\<bar> div 2 ^ E"
  from False have pos: "0 < \<bar>x\<bar>" using bitlen_eq_zero_iff [of "\<bar>x\<bar>"] by (cases "x = 0") auto
  then have "\<bar>x\<bar> < 2 ^ nat (bitlen \<bar>x\<bar>)" using bitlen_bounds [of "\<bar>x\<bar>"] by simp
  also from False have "nat (bitlen \<bar>x\<bar>) = 53 + E" by (simp add: E_def)
  finally have "\<bar>x\<bar> < 2 ^ 53 * 2 ^ E" by (simp only: power_add)
  then have q53: "q < 2 ^ 53" unfolding q_def by (rule div_less_bound)
  have q0: "0 \<le> q" unfolding q_def by (simp add: pos_imp_zdiv_nonneg_iff)
  define q' where "q' = (if 2 ^ (E - 1) < \<bar>x\<bar> mod 2 ^ E \<or> (\<bar>x\<bar> mod 2 ^ E = 2 ^ (E - 1) \<and> odd q)
    then q + 1 else q)"
  have fl: "fl x = sgn x * (q' * 2 ^ E)"
    using False unfolding fl_def Let_def E_def [symmetric] q_def [symmetric] q'_def by simp
  have q': "q' = q \<or> q' = q + 1" by (simp add: q'_def)
  from q' q0 q53 have b: "0 \<le> q'" "q' \<le> 2 ^ 53" by auto
  from pos have "\<bar>sgn x\<bar> = 1" by (simp add: abs_sgn_eq)
  with fl b have "\<bar>fl x\<bar> = q' * 2 ^ E" by (simp add: abs_mult)
  with b show ?thesis by blast
qed

lemma fl_idem: "fl (fl x) = fl x"
  using fl_shape [of x] fl_exact by blast


lemma fl_neg: "fl (- x) = - fl x"
  by (simp add: fl_def Let_def)

lemma fl_large:
  assumes "2 ^ 53 \<le> \<bar>y\<bar>"
  shows "2 ^ 53 \<le> \<bar>fl y\<bar>"
proof (cases "bitlen \<bar>y\<bar> \<le> 53")
  case True
  have "\<bar>y\<bar> < 2 ^ 53"
  proof (cases "y = 0")
    case False
    then have "\<bar>y\<bar> < 2 ^ nat (bitlen \<bar>y\<bar>)" using bitlen_bounds [of "\<bar>y\<bar>"] by simp
    also from True have "\<dots> \<le> (2::int) ^ 53" by (intro power_increasing) simp_all
    finally show ?thesis .
  qed simp
  with assms show ?thesis by simp
next
  case False
  define E where "E = nat (bitlen \<bar>y\<bar> - 53)"
  define q where "q = \<bar>y\<bar> div 2 ^ E"
  from False have E: "1 \<le> E" by (simp add: E_def)
  from False have pos: "0 < \<bar>y\<bar>" using bitlen_eq_zero_iff [of "\<bar>y\<bar>"] by (cases "y = 0") auto
  then have "2 ^ nat (bitlen \<bar>y\<bar> - 1) \<le> \<bar>y\<bar>" using bitlen_bounds [of "\<bar>y\<bar>"] by simp
  moreover from False have "nat (bitlen \<bar>y\<bar> - 1) = 52 + E" by (simp add: E_def)
  ultimately have "(2::int) ^ 52 * 2 ^ E \<le> \<bar>y\<bar>" by (simp only: power_add)
  then have "(2 ^ 52 * 2 ^ E) div 2 ^ E \<le> \<bar>y\<bar> div (2::int) ^ E" by (intro zdiv_mono1) simp_all
  then have q52: "2 ^ 52 \<le> q" by (simp add: q_def)
  define q' where "q' = (if 2 ^ (E - 1) < \<bar>y\<bar> mod 2 ^ E \<or> (\<bar>y\<bar> mod 2 ^ E = 2 ^ (E - 1) \<and> odd q)
    then q + 1 else q)"
  have fl: "fl y = sgn y * (q' * 2 ^ E)"
    using False unfolding fl_def Let_def E_def [symmetric] q_def [symmetric] q'_def by simp
  from q52 have b: "2 ^ 52 \<le> q'" by (simp add: q'_def)
  from pos have "\<bar>sgn y\<bar> = 1" by (simp add: abs_sgn_eq)
  with fl b have a: "\<bar>fl y\<bar> = q' * 2 ^ E" by (simp add: abs_mult)
  from E have "(2::int) ^ 1 \<le> 2 ^ E" by (intro power_increasing) simp_all
  with b have "(2::int) ^ 52 * 2 ^ 1 \<le> q' * 2 ^ E" by (intro mult_mono) simp_all
  with a show ?thesis by simp
qed

lemma shortest_fl: "fl x = x \<Longrightarrow> fl (shortest e x) = x"
  by (induction e) (simp_all add: Let_def)

lemma shortest_small:
  assumes "0 \<le> x" "x < 2 ^ 53"
  shows "shortest e x = x"
proof (induction e)
  case (Suc e)
  define p :: int where "p = 10 ^ Suc e"
  define lo where "lo = x div p * p"
  have p: "0 < p" by (simp add: p_def)
  have "0 \<le> x mod p" "x mod p < p" using p by simp_all
  then have lo: "lo \<le> x" "x < lo + p"
    using div_mult_mod_eq [of x p] unfolding lo_def by linarith+
  from assms p have "0 \<le> x div p" by (simp add: pos_imp_zdiv_nonneg_iff)
  with p have lo0: "0 \<le> lo" by (simp add: lo_def)
  with lo assms have fllo: "fl lo = lo" by (intro fl_small) simp
  have flhi: "fl (lo + p) \<noteq> x"
  proof (cases "lo + p \<le> 2 ^ 53")
    case True
    with lo0 p have "fl (lo + p) = lo + p" by (intro fl_small) simp
    with lo show ?thesis by simp
  next
    case False
    then have "2 ^ 53 \<le> \<bar>lo + p\<bar>" by simp
    then have "2 ^ 53 \<le> \<bar>fl (lo + p)\<bar>" by (rule fl_large)
    with assms show ?thesis by auto
  qed
  show ?case
    using Suc fllo flhi unfolding shortest.simps Let_def p_def [symmetric] lo_def [symmetric]
    by simp
qed simp

lemma sent_small: "\<bar>x\<bar> < 2 ^ 53 \<Longrightarrow> sent x = x"
  by (simp add: sent_def shortest_small mult_sgn_abs)

lemma sent_neg [simp]: "sent (- x) = - sent x"
  by (simp add: sent_def)

lemma sent_fl:
  assumes "fl x = x"
  shows "fl (sent x) = x"
proof (cases "0 \<le> x")
  case True
  then have "sent x = x \<or> sent x = shortest 20 x" by (cases "x = 0") (simp_all add: sent_def)
  with assms show ?thesis by (auto simp add: shortest_fl)
next
  case False
  from assms have "fl (- x) = - x" by (simp add: fl_neg)
  then have "fl (shortest 20 (- x)) = - x" by (rule shortest_fl)
  moreover from False have "sent x = - shortest 20 (- x)" by (simp add: sent_def)
  ultimately show ?thesis by (simp add: fl_neg)
qed

lemma parseFloat_sent: "parseFloat (sent (number v)) = number v"
  using sent_fl [of "fl v"] by (simp add: number_def parseFloat_def fl_idem)

lemma sent_number: "sent (parseFloat (sent (number v))) = sent (number v)"
  by (simp add: parseFloat_sent)

lemma sent_big:
  assumes "fl x = x" "2 ^ 53 \<le> \<bar>x\<bar>"
  shows "2 ^ 53 \<le> \<bar>sent x\<bar>"
proof (rule ccontr)
  assume "\<not> 2 ^ 53 \<le> \<bar>sent x\<bar>"
  then have "\<bar>sent x\<bar> \<le> 2 ^ 53" by simp
  then have "fl (sent x) = sent x" by (rule fl_small)
  with assms(1) have "sent x = x" by (simp add: sent_fl)
  with assms(2) \<open>\<not> 2 ^ 53 \<le> \<bar>sent x\<bar>\<close> show False by simp
qed

lemma sent_int4:
  "int4 x \<Longrightarrow> sent (number x) = x"
  "int4 (sent (number x)) \<longleftrightarrow> int4 x"
proof -
  have small: "sent (number x) = x" if "\<bar>x\<bar> < 2 ^ 53"
  proof -
    from that have "fl x = x" by (intro fl_small) simp
    with that show ?thesis by (simp add: number_def sent_small)
  qed
  show "int4 x \<Longrightarrow> sent (number x) = x"
  proof -
    assume "int4 x"
    then have "\<bar>x\<bar> < 2 ^ 53" unfolding int4_def by simp linarith
    then show ?thesis by (rule small)
  qed
  show "int4 (sent (number x)) \<longleftrightarrow> int4 x"
  proof (cases "\<bar>x\<bar> < 2 ^ 53")
    case True
    then show ?thesis by (simp add: small)
  next
    case False
    then have "2 ^ 53 \<le> \<bar>fl x\<bar>" by (intro fl_large) simp
    then have "2 ^ 53 \<le> \<bar>sent (fl x)\<bar>" by (intro sent_big) (simp_all add: fl_idem)
    then have "\<not> int4 (sent (fl x))" by (simp add: int4_def) linarith
    moreover from False have "\<not> int4 x" by (simp add: int4_def) linarith
    ultimately show ?thesis by (simp add: number_def)
  qed
qed

lemma bitlen_bound: "bitlen \<bar>y\<bar> \<le> 53 \<Longrightarrow> \<bar>y\<bar> < 2 ^ 53"
proof (cases "y = 0")
  case False
  assume a: "bitlen \<bar>y\<bar> \<le> 53"
  from False have "\<bar>y\<bar> < 2 ^ nat (bitlen \<bar>y\<bar>)" using bitlen_bounds [of "\<bar>y\<bar>"] by simp
  also from a have "\<dots> \<le> (2::int) ^ 53" by (intro power_increasing) simp_all
  finally show ?thesis .
qed simp

lemma fl_big:
  assumes "\<not> bitlen \<bar>y\<bar> \<le> 53"
  obtains E m where "1 \<le> E" "2 ^ (52 + E) \<le> \<bar>y\<bar>" "\<bar>y\<bar> < 2 ^ (53 + E)"
    "fl y = sgn y * (m * 2 ^ E)" "2 ^ 52 \<le> m" "m \<le> 2 ^ 53"
proof -
  define E where "E = nat (bitlen \<bar>y\<bar> - 53)"
  define q where "q = \<bar>y\<bar> div 2 ^ E"
  from assms have E: "1 \<le> E" by (simp add: E_def)
  from assms have pos: "0 < \<bar>y\<bar>" using bitlen_eq_zero_iff [of "\<bar>y\<bar>"] by (cases "y = 0") auto
  then have b: "2 ^ nat (bitlen \<bar>y\<bar> - 1) \<le> \<bar>y\<bar>" "\<bar>y\<bar> < 2 ^ nat (bitlen \<bar>y\<bar>)"
    using bitlen_bounds [of "\<bar>y\<bar>"] by simp_all
  from assms have n: "nat (bitlen \<bar>y\<bar> - 1) = 52 + E" "nat (bitlen \<bar>y\<bar>) = 53 + E"
    by (simp_all add: E_def)
  from b n have lo: "(2::int) ^ (52 + E) \<le> \<bar>y\<bar>" and hi: "\<bar>y\<bar> < 2 ^ (53 + E)" by simp_all
  from lo have "(2::int) ^ 52 * 2 ^ E \<le> \<bar>y\<bar>" by (simp only: power_add)
  then have "(2 ^ 52 * 2 ^ E) div 2 ^ E \<le> \<bar>y\<bar> div (2::int) ^ E" by (intro zdiv_mono1) simp_all
  then have q52: "2 ^ 52 \<le> q" by (simp add: q_def)
  from hi have "\<bar>y\<bar> < 2 ^ 53 * 2 ^ E" by (simp only: power_add)
  then have q53: "q < 2 ^ 53" unfolding q_def by (rule div_less_bound)
  define q' where "q' = (if 2 ^ (E - 1) < \<bar>y\<bar> mod 2 ^ E \<or> (\<bar>y\<bar> mod 2 ^ E = 2 ^ (E - 1) \<and> odd q)
    then q + 1 else q)"
  have fl: "fl y = sgn y * (q' * 2 ^ E)"
    using assms unfolding fl_def Let_def E_def [symmetric] q_def [symmetric] q'_def by simp
  from q52 q53 have "2 ^ 52 \<le> q'" "q' \<le> 2 ^ 53" by (simp_all add: q'_def)
  with E lo hi fl show ?thesis by (rule that)
qed

lemma fl_ge:
  assumes "2 ^ 53 \<le> y"
  shows "2 ^ 53 \<le> fl y"
proof -
  from assms bitlen_bound [of y] have "\<not> bitlen \<bar>y\<bar> \<le> 53" by fastforce
  then obtain E m where E: "1 \<le> E" "fl y = sgn y * (m * 2 ^ E)" "2 ^ 52 \<le> m"
    by (rule fl_big)
  from E(1) have "(2::int) ^ 1 \<le> 2 ^ E" by (intro power_increasing) simp_all
  with E(3) have "(2::int) ^ 52 * 2 ^ 1 \<le> m * 2 ^ E" by (intro mult_mono) simp_all
  moreover from assms have "sgn y = 1" by simp
  ultimately show ?thesis using E(2) by simp
qed

lemma fl_le: "y \<le> - (2 ^ 53) \<Longrightarrow> fl y \<le> - (2 ^ 53)"
  using fl_ge [of "- y"] by (simp add: fl_neg)

lemma fl_bound:
  assumes "\<bar>y\<bar> \<le> 2 ^ n"
  shows "\<bar>fl y\<bar> \<le> 2 ^ n"
proof (cases "bitlen \<bar>y\<bar> \<le> 53")
  case True
  with assms show ?thesis by (simp add: fl_def)
next
  case False
  then obtain E m where E: "2 ^ (52 + E) \<le> \<bar>y\<bar>" "fl y = sgn y * (m * 2 ^ E)" "2 ^ 52 \<le> m"
    "m \<le> 2 ^ 53"
    by (rule fl_big)
  show ?thesis
  proof (cases "\<bar>y\<bar> = 2 ^ n")
    case True
    then have "fl y = y" using fl_exact [of y 1 n] by simp
    with assms show ?thesis by simp
  next
    case False
    with assms E(1) have "(2::int) ^ (52 + E) < 2 ^ n" by linarith
    then have "52 + E < n" by (simp add: power_strict_increasing_iff)
    then have "53 + E \<le> n" by simp
    then have le: "(2::int) ^ (53 + E) \<le> 2 ^ n" by (intro power_increasing) simp_all
    from E(3) have "\<bar>fl y\<bar> = \<bar>sgn y\<bar> * (m * 2 ^ E)" unfolding E(2) by (simp add: abs_mult)
    also have "\<dots> \<le> m * 2 ^ E" using E(3) by (cases "y = 0") (simp_all add: abs_sgn_eq)
    also from E(4) have "\<dots> \<le> 2 ^ 53 * 2 ^ E" by (intro mult_right_mono) simp_all
    also have "\<dots> = 2 ^ (53 + E)" by (simp only: power_add)
    finally show ?thesis using le by linarith
  qed
qed

lemma number_eq: "\<bar>c\<bar> < 2 ^ 53 \<Longrightarrow> number h = c \<longleftrightarrow> h = c"
proof -
  assume c: "\<bar>c\<bar> < 2 ^ 53"
  consider "\<bar>h\<bar> < 2 ^ 53" | "2 ^ 53 \<le> h" | "h \<le> - (2 ^ 53)" by linarith
  then show ?thesis
  proof cases
    case 1
    then have "fl h = h" by (intro fl_small) simp
    then show ?thesis by (simp add: number_def)
  next
    case 2
    with fl_ge [of h] c show ?thesis unfolding number_def by linarith
  next
    case 3
    with fl_le [of h] c show ?thesis unfolding number_def by linarith
  qed
qed

lemma number_less: "\<bar>c\<bar> < 2 ^ 53 \<Longrightarrow> number h < c \<longleftrightarrow> h < c"
  "\<bar>c\<bar> < 2 ^ 53 \<Longrightarrow> c < number h \<longleftrightarrow> c < h"
proof -
  assume c: "\<bar>c\<bar> < 2 ^ 53"
  consider "\<bar>h\<bar> < 2 ^ 53" | "2 ^ 53 \<le> h" | "h \<le> - (2 ^ 53)" by linarith
  then have "(number h < c \<longleftrightarrow> h < c) \<and> (c < number h \<longleftrightarrow> c < h)"
  proof cases
    case 1
    then have "fl h = h" by (intro fl_small) simp
    then show ?thesis by (simp add: number_def)
  next
    case 2
    with fl_ge [of h] c show ?thesis unfolding number_def by linarith
  next
    case 3
    with fl_le [of h] c show ?thesis unfolding number_def by linarith
  qed
  then show "number h < c \<longleftrightarrow> h < c" "c < number h \<longleftrightarrow> c < h" by simp_all
qed

lemma sent_large:
  assumes "fl x = x" "2 ^ 63 < \<bar>x\<bar>"
  shows "\<not> int8 (sent x)"
proof
  assume "int8 (sent x)"
  then have "\<bar>sent x\<bar> \<le> 2 ^ 63" unfolding int8_def by linarith
  then have "\<bar>fl (sent x)\<bar> \<le> 2 ^ 63" by (rule fl_bound)
  with assms show False by (simp add: sent_fl)
qed


section \<open>Atomicity of the handlers\<close>

lemma atomically_failed: "fst (atomically body s) \<noteq> None \<Longrightarrow> snd (atomically body s) = s"
  by (simp add: atomically_def split: sum.splits)

lemma submitBlock_failed: "fst (submitBlock H s b) \<noteq> None \<Longrightarrow> snd (submitBlock H s b) = s"
  by (auto simp: submitBlock_def processBlock_def atomically_def split: option.splits sum.splits)

lemma submitBlock_accepted:
  "fst (submitBlock H s b) = None \<longleftrightarrow> validateBlock H s b = None \<and> (\<exists>s'. applyBlock b s = Inr s')"
  by (auto simp: submitBlock_def processBlock_def atomically_def split: option.splits sum.splits)

lemma submitBlock_result:
  "submitBlock H s b = (None, s') \<longleftrightarrow> validateBlock H s b = None \<and> applyBlock b s = Inr s'"
  by (auto simp: submitBlock_def processBlock_def atomically_def split: option.splits sum.splits)

section \<open>Height sequencing\<close>

lemma fold_max_Max: "fold max xs (x::int) = Max (set (x # xs))"
  using Max.set_eq_fold [of x xs] by simp

lemma currentHeight_Max:
  "currentHeight s = (if blocks s = [] then 0 else Max (set (map br_height (blocks s))))"
  using fold_max_Max [of "map br_height (tl (blocks s))" "br_height (hd (blocks s))"]
  by (cases "blocks s") (simp_all add: currentHeight_def)

text \<open>
  C8. A submitted block is accepted only if its height is the current maximum stored
  height plus one, where the current height of a ledger without blocks is 0; a block of
  any other height is answered with \<open>InvalidHeight\<close> and the store is left as it was.
\<close>

theorem height_monotonicity:
  "(fst (submitBlock H s b) = None \<longrightarrow> blk_height b = currentHeight s + 1) \<and>
   (blk_height b \<noteq> currentHeight s + 1 \<longrightarrow>
      submitBlock H s b = (Some (ValidationError InvalidHeight), s)) \<and>
   currentHeight s = (if blocks s = [] then 0 else Max (set (map br_height (blocks s))))"
proof (intro conjI impI)
  assume "fst (submitBlock H s b) = None"
  then have "validateBlock H s b = None" by (simp add: submitBlock_accepted)
  then show "blk_height b = currentHeight s + 1"
    by (simp add: validateBlock_def validateBlockHeight_def split: option.splits if_splits)
next
  assume "blk_height b \<noteq> currentHeight s + 1"
  then show "submitBlock H s b = (Some (ValidationError InvalidHeight), s)"
    by (simp add: submitBlock_def validateBlock_def validateBlockHeight_def)
next
  show "currentHeight s = (if blocks s = [] then 0 else Max (set (map br_height (blocks s))))"
    by (rule currentHeight_Max)
qed

theorem height_monotonicity_witness:
  "fst (submitBlock (\<lambda>x. x) empty_store
      \<lparr>blk_id = ''1'', blk_height = 1, blk_transactions = []\<rparr>) = None \<and>
   blk_height \<lparr>blk_id = ''1'', blk_height = 1, blk_transactions = []\<rparr>
     = currentHeight empty_store + 1 \<and>
   blk_height \<lparr>blk_id = ''5'', blk_height = 5, blk_transactions = []\<rparr>
     \<noteq> currentHeight empty_store + 1 \<and>
   submitBlock (\<lambda>x. x) empty_store \<lparr>blk_id = ''5'', blk_height = 5, blk_transactions = []\<rparr>
     = (Some (ValidationError InvalidHeight), empty_store)"
  using height_monotonicity [of "\<lambda>x. x" empty_store
      "\<lparr>blk_id = ''1'', blk_height = 1, blk_transactions = []\<rparr>"]
    height_monotonicity [of "\<lambda>x. x" empty_store
      "\<lparr>blk_id = ''5'', blk_height = 5, blk_transactions = []\<rparr>"]
  by (simp add: submitBlock_def validateBlock_def validateBlockHeight_def validateBlockId_def
      expectedId_def decimal_def decimal_nat.simps digit_def currentHeight_def empty_store_def
      processBlock_def atomically_def applyBlock_def insert_block_def fits_def stored_def
      int4_def)

section \<open>Recomputation of the block id\<close>

text \<open>
  C9. Validation recomputes the expected id as the digest of the decimal string of the
  height followed, with no separator, by the transaction ids in ascending order of their
  characters; the recomputed id is the same for every permutation of the transaction
  array, and a block whose id differs from it is answered with \<open>InvalidBlockId\<close>. The
  digest is the parameter \<open>H\<close>, which stands for the lowercase hexadecimal SHA-256 of the
  \<^verbatim>\<open>crypto\<close> library.
\<close>

theorem block_id_recomputation:
  "validateBlockId H b =
     (if blk_id b = H (decimal (blk_height b) @ concat (sort (map tx_id (blk_transactions b))))
      then None else Some (ValidationError InvalidBlockId)) \<and>
   sorted (sort (map tx_id (blk_transactions b))) \<and>
   mset (sort (map tx_id (blk_transactions b))) = mset (map tx_id (blk_transactions b)) \<and>
   (mset ts = mset (blk_transactions b) \<longrightarrow>
      expectedId H (b\<lparr>blk_transactions := ts\<rparr>) = expectedId H b)"
proof (intro conjI impI)
  assume "mset ts = mset (blk_transactions b)"
  then have "mset (map tx_id ts) = mset (map tx_id (blk_transactions b))"
    by (metis mset_map)
  then have "sort (map tx_id ts) = sort (map tx_id (blk_transactions b))"
    by (intro properties_for_sort) simp_all
  then show "expectedId H (b\<lparr>blk_transactions := ts\<rparr>) = expectedId H b"
    by (simp add: expectedId_def)
qed (auto simp: validateBlockId_def expectedId_def)

theorem block_id_recomputation_witness:
  "mset [\<lparr>tx_id = ''a'', tx_inputs = [], tx_outputs = []\<rparr>,
         \<lparr>tx_id = ''b'', tx_inputs = [], tx_outputs = []\<rparr>]
     = mset (blk_transactions \<lparr>blk_id = ''7ab'', blk_height = 7, blk_transactions =
         [\<lparr>tx_id = ''b'', tx_inputs = [], tx_outputs = []\<rparr>,
          \<lparr>tx_id = ''a'', tx_inputs = [], tx_outputs = []\<rparr>]\<rparr>) \<and>
   expectedId (\<lambda>x. x) \<lparr>blk_id = ''7ab'', blk_height = 7, blk_transactions =
         [\<lparr>tx_id = ''a'', tx_inputs = [], tx_outputs = []\<rparr>,
          \<lparr>tx_id = ''b'', tx_inputs = [], tx_outputs = []\<rparr>]\<rparr> = ''7ab'' \<and>
   expectedId (\<lambda>x. x) \<lparr>blk_id = ''7ab'', blk_height = 7, blk_transactions =
         [\<lparr>tx_id = ''b'', tx_inputs = [], tx_outputs = []\<rparr>,
          \<lparr>tx_id = ''a'', tx_inputs = [], tx_outputs = []\<rparr>]\<rparr> = ''7ab'' \<and>
   validateBlockId (\<lambda>x. x) \<lparr>blk_id = ''7ab'', blk_height = 7, blk_transactions =
         [\<lparr>tx_id = ''b'', tx_inputs = [], tx_outputs = []\<rparr>,
          \<lparr>tx_id = ''a'', tx_inputs = [], tx_outputs = []\<rparr>]\<rparr> = None"
  using block_id_recomputation [of "\<lambda>x. x"
      "\<lparr>blk_id = ''7ab'', blk_height = 7, blk_transactions =
         [\<lparr>tx_id = ''b'', tx_inputs = [], tx_outputs = []\<rparr>,
          \<lparr>tx_id = ''a'', tx_inputs = [], tx_outputs = []\<rparr>]\<rparr>"
      "[\<lparr>tx_id = ''a'', tx_inputs = [], tx_outputs = []\<rparr>,
        \<lparr>tx_id = ''b'', tx_inputs = [], tx_outputs = []\<rparr>]"]
  by (simp add: expectedId_def decimal_def decimal_nat.simps digit_def validateBlockId_def)

section \<open>Output values are not checked for sign\<close>

text \<open>
  C10. No check looks at the sign of an output value: a block at height 1 whose only
  transaction has no inputs and one output of value \<open>v\<close>, for any \<open>v\<close> that a \<^verbatim>\<open>BIGINT\<close>
  holds as the driver sends it, passes \<open>validateBlock\<close> on the empty ledger and is applied
  by \<open>processBlock\<close>, after which the stored balance of the receiving address is that
  value, and \<open>getAddressBalance\<close> returns the number \<open>v\<close>; with \<open>v = -5\<close> the stored balance
  is \<open>-5\<close>. The digest \<open>H\<close> gives the block an id that the column of block ids holds.
\<close>

theorem negative_value_accepted:
  assumes "fits 64 (H ''1m'')" "int8 (sent (number v))"
  shows "validateBlock H empty_store
     \<lparr>blk_id = H ''1m'', blk_height = 1, blk_transactions =
        [\<lparr>tx_id = ''m'', tx_inputs = [],
          tx_outputs = [\<lparr>out_address = ''addr1'', out_value = v\<rparr>]\<rparr>]\<rparr> = None \<and>
   fst (processBlock empty_store
     \<lparr>blk_id = H ''1m'', blk_height = 1, blk_transactions =
        [\<lparr>tx_id = ''m'', tx_inputs = [],
          tx_outputs = [\<lparr>out_address = ''addr1'', out_value = v\<rparr>]\<rparr>]\<rparr>) = None \<and>
   address_balances (snd (processBlock empty_store
     \<lparr>blk_id = H ''1m'', blk_height = 1, blk_transactions =
        [\<lparr>tx_id = ''m'', tx_inputs = [],
          tx_outputs = [\<lparr>out_address = ''addr1'', out_value = v\<rparr>]\<rparr>]\<rparr>)) ''addr1''
     = Some (sent (number v)) \<and>
   getAddressBalance (snd (processBlock empty_store
     \<lparr>blk_id = H ''1m'', blk_height = 1, blk_transactions =
        [\<lparr>tx_id = ''m'', tx_inputs = [],
          tx_outputs = [\<lparr>out_address = ''addr1'', out_value = v\<rparr>]\<rparr>]\<rparr>)) ''addr1'' = number v"
  using assms
  by (simp add: validateBlock_def validateBlockHeight_def validateBlockId_def
      expectedId_def decimal_def decimal_nat.simps digit_def currentHeight_def empty_store_def
      validateTransaction_def processBlock_def atomically_def applyBlock_def insert_block_def
      processTransaction_def insert_transaction_def createUTXO_def insert_utxo_def
      updateAddressBalance_def getAddressBalance_def utxo_at_def parseFloat_sent
      int4_def fits_def stored_def Let_def)

theorem negative_value_accepted_witness:
  "validateBlock (\<lambda>x. x) empty_store
     \<lparr>blk_id = ''1m'', blk_height = 1, blk_transactions =
        [\<lparr>tx_id = ''m'', tx_inputs = [],
          tx_outputs = [\<lparr>out_address = ''addr1'', out_value = - 5\<rparr>]\<rparr>]\<rparr> = None \<and>
   fst (processBlock empty_store
     \<lparr>blk_id = ''1m'', blk_height = 1, blk_transactions =
        [\<lparr>tx_id = ''m'', tx_inputs = [],
          tx_outputs = [\<lparr>out_address = ''addr1'', out_value = - 5\<rparr>]\<rparr>]\<rparr>) = None \<and>
   address_balances (snd (processBlock empty_store
     \<lparr>blk_id = ''1m'', blk_height = 1, blk_transactions =
        [\<lparr>tx_id = ''m'', tx_inputs = [],
          tx_outputs = [\<lparr>out_address = ''addr1'', out_value = - 5\<rparr>]\<rparr>]\<rparr>)) ''addr1''
     = Some (- 5) \<and>
   getAddressBalance (snd (processBlock empty_store
     \<lparr>blk_id = ''1m'', blk_height = 1, blk_transactions =
        [\<lparr>tx_id = ''m'', tx_inputs = [],
          tx_outputs = [\<lparr>out_address = ''addr1'', out_value = - 5\<rparr>]\<rparr>]\<rparr>)) ''addr1'' < 0"
  using negative_value_accepted [of "\<lambda>x. x" "- 5"]
  by (simp add: fits_def int8_def number_def fl_small sent_small)

section \<open>Evaluation on the fixtures\<close>

lemmas fixture_defs = createTestTransaction_def createTestBlock_def genesis10_def spend64_def
  spend65_def ledger10_def twoMints_def ledgerTwo_def ledger64_def chained_def forward_def
  twice_def again_def twice10_def mint53_def spend53_def mintLarge_def moveLarge_def
  outOfRange_def ledgerLarge_def
  empty_store_def decimal_def decimal_nat.simps digit_def

lemmas ledger_defs = submitBlock_def validateBlock_def validateBlockHeight_def validateBlockId_def
  expectedId_def currentHeight_def validateTransaction_def getInputValue_def select_unspent_def
  processBlock_def atomically_def applyBlock_def insert_block_def
  processTransaction_def insert_transaction_def spendUTXO_def createUTXO_def insert_utxo_def
  mark_spent_def updateAddressBalance_def getAddressBalance_def utxo_at_def
  number_def parseFloat_def reduce_sum_def fl_small sent_small int4_def int8_def fits_def
  stored_def Let_def

lemmas rollback_defs = rollbackToHeight_def undoBlocks_def blocksToRemove_def rollbackBlock_def
  transactionsOfBlock_def rollbackTransaction_def delete_utxos_of_def delete_transaction_def
  delete_blocks_above_def unspend_def rollback_def validateRollbackHeight_def

lemma submit_genesis10: "submitBlock (\<lambda>x. x) empty_store genesis10 = (None, ledger10)"
  by (simp add: fixture_defs ledger_defs)

lemma blocks_ledger10: "blk_height spend65 = currentHeight ledger10 + 1"
  "blk_id spend65 = expectedId (\<lambda>x. x) spend65"
  "blk_height spend64 = currentHeight ledger10 + 1"
  "blk_id spend64 = expectedId (\<lambda>x. x) spend64"
  by (simp_all add: fixture_defs ledger_defs)

lemma test1: "fst (submitBlock (\<lambda>x. x) ledger10 spend64) = None"
  by (simp add: fixture_defs ledger_defs)

lemma test2: "submitBlock (\<lambda>x. x) ledger10 spend65 = (Some (ValidationError ValueMismatch), ledger10)"
  by (simp add: fixture_defs ledger_defs)

lemma submit_spend64: "submitBlock (\<lambda>x. x) ledger10 spend64 = (None, ledger64)"
  by (simp add: fixture_defs ledger_defs fun_upd_twist)

lemma submit_twoMints: "submitBlock (\<lambda>x. x) empty_store twoMints = (None, ledgerTwo)"
  by (simp add: fixture_defs ledger_defs)

section \<open>What validation checks\<close>

lemma filter_Cons_first: "filter P xs = u # r \<Longrightarrow> u \<in> set xs \<and> P u"
proof -
  assume a: "filter P xs = u # r"
  have "u \<in> set (filter P xs)" by (simp add: a)
  then show ?thesis by simp
qed

lemma utxo_at_key: "utxo_at t i u \<longleftrightarrow> key u = (t, i)"
  by (auto simp: utxo_at_def key_def)

lemma select_unspent_Inr:
  "select_unspent s t i = Inr rs \<longleftrightarrow>
     int4 i \<and> rs = filter (\<lambda>u. key u = (t, i) \<and> \<not> u_is_spent u) (utxos s)"
  by (auto simp: select_unspent_def utxo_at_key)

lemma select_unspent_Inl: "select_unspent s t i = Inl e \<longleftrightarrow> \<not> int4 i \<and> e = DatabaseError"
  by (auto simp: select_unspent_def)

lemma getInputValue_Inr:
  "getInputValue s i = Inr v \<Longrightarrow>
     int4 (in_index i) \<and>
     (\<exists>u \<in> set (utxos s). key u = input_key i \<and> \<not> u_is_spent u \<and> parseFloat (u_value u) = v)"
  by (auto simp: getInputValue_def select_unspent_Inr input_key_def
      split: sum.splits list.splits dest!: filter_Cons_first)

lemma getInputValue_resolves: "(\<exists>v. getInputValue s i = Inr v) \<longleftrightarrow> resolves s i"
proof
  assume "\<exists>v. getInputValue s i = Inr v"
  then show "resolves s i" by (auto simp: resolves_def dest!: getInputValue_Inr)
next
  assume "resolves s i"
  then obtain u where u: "int4 (in_index i)" "u \<in> set (utxos s)" "key u = input_key i"
    "\<not> u_is_spent u"
    by (auto simp: resolves_def)
  then have "filter (\<lambda>u. key u = (in_txId i, in_index i) \<and> \<not> u_is_spent u) (utxos s) \<noteq> []"
    by (auto simp: filter_empty_conv input_key_def)
  with u(1) show "\<exists>v. getInputValue s i = Inr v"
    by (auto simp: getInputValue_def select_unspent_def utxo_at_key split: list.splits)
qed

lemma getInputValue_Inl:
  "getInputValue s i = Inl e \<longleftrightarrow>
     \<not> resolves s i \<and> e = (if int4 (in_index i) then ValidationError InputNotFound else DatabaseError)"
  by (auto simp: getInputValue_def select_unspent_def resolves_def utxo_at_key input_key_def
      filter_empty_conv split: list.splits)

lemma inputValues_Inr:
  "inputValues s ins = Inr vs \<Longrightarrow> \<forall>i \<in> set ins. resolves s i"
proof (induction ins arbitrary: vs)
  case Nil
  then show ?case by simp
next
  case (Cons i ins)
  then show ?case
    using getInputValue_resolves [of s i] by (auto split: sum.splits)
qed

lemma inputValues_first_failure:
  "\<forall>j \<in> set ipre. resolves s j \<Longrightarrow> getInputValue s i = Inl e \<Longrightarrow>
     inputValues s (ipre @ i # ipost) = Inl e"
proof (induction ipre)
  case Nil
  then show ?case by simp
next
  case (Cons j ipre)
  then have "resolves s j" by simp
  then obtain v where "getInputValue s j = Inr v" using getInputValue_resolves by blast
  with Cons show ?case by simp
qed

lemma validateTransaction_first_failure:
  assumes "tx_inputs t = ipre @ i # ipost" "\<forall>j \<in> set ipre. resolves s j" "\<not> resolves s i"
  shows "validateTransaction s t =
     Some (if int4 (in_index i) then ValidationError InputNotFound else DatabaseError)"
proof -
  from assms(3) have "getInputValue s i =
      Inl (if int4 (in_index i) then ValidationError InputNotFound else DatabaseError)"
    by (simp add: getInputValue_Inl)
  from inputValues_first_failure [OF assms(2) this] assms(1) show ?thesis
    by (simp add: validateTransaction_def)
qed

lemma validated_keys:
  assumes "validateTransaction s t = None"
  shows "\<forall>i \<in> set (tx_inputs t). resolves s i"
proof -
  from assms obtain vs where "inputValues s (tx_inputs t) = Inr vs"
    by (auto simp: validateTransaction_def split: sum.splits)
  then show ?thesis by (rule inputValues_Inr)
qed

lemma validateTransactions_prefix:
  "\<forall>p \<in> set pre. validateTransaction s p = None \<Longrightarrow>
     validateTransactions s (pre @ t # post) =
       (case validateTransaction s t of Some e \<Rightarrow> Some e | None \<Rightarrow> validateTransactions s post)"
  by (induction pre) simp_all

lemma validateTransactions_None:
  "validateTransactions s ts = None \<longleftrightarrow> (\<forall>t \<in> set ts. validateTransaction s t = None)"
  by (induction ts) (auto split: option.splits)

lemma validateBlock_None:
  "validateBlock H s b = None \<longleftrightarrow>
     blk_height b = currentHeight s + 1 \<and> blk_id b = expectedId H b \<and>
     (\<forall>t \<in> set (blk_transactions b). validateTransaction s t = None)"
  by (auto simp: validateBlock_def validateBlockHeight_def validateBlockId_def
      validateTransactions_None split: option.splits)

lemma validateBlock_first_failure:
  assumes "blk_height b = currentHeight s + 1" "blk_id b = expectedId H b"
    "blk_transactions b = pre @ t # post" "\<forall>p \<in> set pre. validateTransaction s p = None"
    "validateTransaction s t = Some e"
  shows "submitBlock H s b = (Some e, s)"
  using assms
  by (simp add: submitBlock_def validateBlock_def validateBlockHeight_def validateBlockId_def
      validateTransactions_prefix)

section \<open>Value conservation\<close>

text \<open>
  C7 holds of the code only as far as its sums are exact. \<open>validateTransaction\<close> adds the
  values as JavaScript numbers, so the two sums it compares are rounded to 53 significant
  bits: on the ledger left by \<open>mint53\<close>, which holds an output of \<open>2 ^ 53\<close> and an output
  of 1, the block \<open>spend53\<close> spends both for a single output of \<open>2 ^ 53\<close>; the sum of its
  inputs is computed as \<open>2 ^ 53\<close>, the transaction passes, the block is accepted, and one
  unit of value is gone.
\<close>

theorem value_conservation_rounding:
  "fst (submitBlock (\<lambda>x. x) empty_store mint53) = None \<and>
   map u_value (utxos (snd (submitBlock (\<lambda>x. x) empty_store mint53))) = [2 ^ 53, 1] \<and>
   map input_key (tx_inputs (hd (blk_transactions spend53))) = [(''m'', 0), (''m'', 1)] \<and>
   map key (utxos (snd (submitBlock (\<lambda>x. x) empty_store mint53))) = [(''m'', 0), (''m'', 1)] \<and>
   inputValues (snd (submitBlock (\<lambda>x. x) empty_store mint53))
     (tx_inputs (hd (blk_transactions spend53))) = Inr [2 ^ 53, 1] \<and>
   map out_value (tx_outputs (hd (blk_transactions spend53))) = [2 ^ 53] \<and>
   sum_list [2 ^ 53, 1] \<noteq> sum_list [2 ^ 53 :: int] \<and>
   reduce_sum [2 ^ 53, 1] = reduce_sum [2 ^ 53] \<and>
   validateTransaction (snd (submitBlock (\<lambda>x. x) empty_store mint53))
     (hd (blk_transactions spend53)) = None \<and>
   fst (submitBlock (\<lambda>x. x) (snd (submitBlock (\<lambda>x. x) empty_store mint53)) spend53) = None \<and>
   unspent_sum (snd (submitBlock (\<lambda>x. x) empty_store mint53)) ''x'' = 2 ^ 53 + 1 \<and>
   unspent_sum (snd (submitBlock (\<lambda>x. x) empty_store mint53)) ''y'' = 0 \<and>
   unspent_sum (snd (submitBlock (\<lambda>x. x)
     (snd (submitBlock (\<lambda>x. x) empty_store mint53)) spend53)) ''x'' = 0 \<and>
   unspent_sum (snd (submitBlock (\<lambda>x. x)
     (snd (submitBlock (\<lambda>x. x) empty_store mint53)) spend53)) ''y'' = 2 ^ 53"
  by code_simp

section \<open>The order of a rollback\<close>

lemma rollbackTransactions_append:
  "rollbackTransactions s (xs @ ys) =
     (case rollbackTransactions s xs of Inl e \<Rightarrow> Inl e | Inr s1 \<Rightarrow> rollbackTransactions s1 ys)"
  by (induction xs arbitrary: s) (simp_all split: sum.splits)

lemma rollbackBlocks_trace:
  "rollbackBlocks s bs = rollbackTransactions s (map snd (undoTrace s bs))"
  by (induction bs arbitrary: s)
    (simp_all add: rollbackTransactions_append rollbackBlock_def comp_def split: sum.splits)

lemma blocksToRemove_set:
  "set (blocksToRemove s k) = {b \<in> set (blocks s). br_height b > k}"
  by (auto simp: blocksToRemove_def)

lemma blocksToRemove_sorted:
  "sorted (rev (map br_height (blocksToRemove s k)))"
  by (simp add: blocksToRemove_def rev_map)

lemma blocksToRemove_strict:
  "distinct (map br_height (blocks s)) \<Longrightarrow> sorted_wrt (>) (map br_height (blocksToRemove s k))"
proof -
  assume d: "distinct (map br_height (blocks s))"
  let ?xs = "map br_height (sort_key br_height (filter (\<lambda>b. br_height b > k) (blocks s)))"
  have "distinct ?xs"
    using d by (metis distinct_map_filter distinct_sort mset_map mset_sort mset_eq_imp_distinct_iff)
  moreover have "sorted ?xs" by simp
  ultimately have "sorted_wrt (<) ?xs" by (simp add: strict_sorted_iff)
  then have "sorted_wrt (>) (rev ?xs)" by (simp add: sorted_wrt_rev)
  then show ?thesis by (simp add: blocksToRemove_def rev_map)
qed

lemma transactionsOfBlock_strict:
  "distinct (map tr_id (transactions s)) \<Longrightarrow> sorted_wrt (<) (transactionsOfBlock s bid)"
proof -
  assume d: "distinct (map tr_id (transactions s))"
  have "distinct (transactionsOfBlock s bid)"
    using d by (simp add: transactionsOfBlock_def distinct_map_filter)
  moreover have "sorted (transactionsOfBlock s bid)"
    by (simp add: transactionsOfBlock_def)
  ultimately show ?thesis by (simp add: strict_sorted_iff)
qed

lemma blocksToRemove_ledgerTwo: "blocksToRemove ledgerTwo 0 = [\<lparr>br_id = ''1ab'', br_height = 1\<rparr>]"
  by (simp add: ledgerTwo_def blocksToRemove_def)

lemma transactionsOfBlock_ledgerTwo: "transactionsOfBlock ledgerTwo ''1ab'' = [''a'', ''b'']"
  by (simp add: ledgerTwo_def transactionsOfBlock_def)

lemma undoTrace_ledgerTwo: "undoTrace ledgerTwo (blocksToRemove ledgerTwo 0) = [(1, ''a''), (1, ''b'')]"
  by (simp add: blocksToRemove_ledgerTwo transactionsOfBlock_ledgerTwo split: sum.splits)

lemma transactions_twoMints: "map tx_id (blk_transactions twoMints) = [''a'', ''b'']"
  by (simp add: twoMints_def createTestBlock_def createTestTransaction_def)

text \<open>
  C2, as stated, fails: the block \<open>twoMints\<close> applies its transactions in the order
  \<open>a\<close>, \<open>b\<close>, and the rollback to height 0 undoes them in the same order, not in the
  reverse one.
\<close>

theorem rollback_order_counterexample:
  "fst (submitBlock (\<lambda>x. x) empty_store twoMints) = None \<and>
   map snd (undoTrace (snd (submitBlock (\<lambda>x. x) empty_store twoMints))
      (blocksToRemove (snd (submitBlock (\<lambda>x. x) empty_store twoMints)) 0))
     = map tx_id (blk_transactions twoMints) \<and>
   map snd (undoTrace (snd (submitBlock (\<lambda>x. x) empty_store twoMints))
      (blocksToRemove (snd (submitBlock (\<lambda>x. x) empty_store twoMints)) 0))
     \<noteq> rev (map tx_id (blk_transactions twoMints))"
  by (simp add: submit_twoMints undoTrace_ledgerTwo transactions_twoMints)

text \<open>
  C2, amended. \<open>rollbackToHeight\<close> undoes exactly the blocks above the target, in
  strictly descending order of height, and within each block it undoes the block's
  transactions in strictly ascending order of their ids, whatever the order in which
  they were applied; \<open>undoTrace\<close> is the sequence of transactions it goes through, and
  it stops at the first one whose undoing throws.
\<close>

theorem rollback_order:
  "undoBlocks k s =
     (if \<not> int4 k then Inl DatabaseError
      else case rollbackTransactions s (map snd (undoTrace s (blocksToRemove s k))) of
        Inl e \<Rightarrow> Inl e
      | Inr s1 \<Rightarrow> Inr (delete_blocks_above s1 k)) \<and>
   set (blocksToRemove s k) = {b \<in> set (blocks s). br_height b > k} \<and>
   sorted (rev (map br_height (blocksToRemove s k))) \<and>
   (distinct (map br_height (blocks s)) \<longrightarrow>
      sorted_wrt (>) (map br_height (blocksToRemove s k))) \<and>
   sorted (transactionsOfBlock s' bid) \<and>
   mset (transactionsOfBlock s' bid) =
     mset (map tr_id (filter (\<lambda>r. tr_block_id r = bid) (transactions s'))) \<and>
   (distinct (map tr_id (transactions s')) \<longrightarrow> sorted_wrt (<) (transactionsOfBlock s' bid))"
proof (intro conjI impI)
  show "undoBlocks k s =
     (if \<not> int4 k then Inl DatabaseError
      else case rollbackTransactions s (map snd (undoTrace s (blocksToRemove s k))) of
        Inl e \<Rightarrow> Inl e
      | Inr s1 \<Rightarrow> Inr (delete_blocks_above s1 k))"
    by (simp add: undoBlocks_def rollbackBlocks_trace)
  show "set (blocksToRemove s k) = {b \<in> set (blocks s). br_height b > k}"
    by (rule blocksToRemove_set)
  show "sorted (rev (map br_height (blocksToRemove s k)))"
    by (rule blocksToRemove_sorted)
  show "sorted (transactionsOfBlock s' bid)"
    by (simp add: transactionsOfBlock_def)
  show "mset (transactionsOfBlock s' bid) =
     mset (map tr_id (filter (\<lambda>r. tr_block_id r = bid) (transactions s')))"
    by (simp add: transactionsOfBlock_def)
next
  assume "distinct (map br_height (blocks s))"
  then show "sorted_wrt (>) (map br_height (blocksToRemove s k))"
    by (rule blocksToRemove_strict)
next
  assume "distinct (map tr_id (transactions s'))"
  then show "sorted_wrt (<) (transactionsOfBlock s' bid)"
    by (rule transactionsOfBlock_strict)
qed

theorem rollback_order_witness:
  "distinct (map br_height (blocks ledgerTwo)) \<and>
   distinct (map tr_id (transactions ledgerTwo)) \<and>
   map br_height (blocksToRemove ledgerTwo 0) = [1] \<and>
   transactionsOfBlock ledgerTwo ''1ab'' = [''a'', ''b''] \<and>
   sorted_wrt (<) (transactionsOfBlock ledgerTwo ''1ab'') \<and>
   sorted_wrt (>) (map br_height (blocksToRemove ledgerTwo 0))"
proof -
  have d: "distinct (map br_height (blocks ledgerTwo))"
    "distinct (map tr_id (transactions ledgerTwo))"
    by (simp_all add: ledgerTwo_def)
  from d rollback_order [of 0 ledgerTwo ledgerTwo "''1ab''"]
  have "sorted_wrt (<) (transactionsOfBlock ledgerTwo ''1ab'')"
    "sorted_wrt (>) (map br_height (blocksToRemove ledgerTwo 0))"
    by blast+
  with d show ?thesis
    by (simp add: blocksToRemove_ledgerTwo transactionsOfBlock_ledgerTwo)
qed

section \<open>What each statement of the ledger does\<close>

lemma stored_short: "length x \<le> n \<Longrightarrow> stored n x = x"
  by (simp add: stored_def)

lemma stored_length: "length (stored n x) \<le> n"
  by (simp add: stored_def)

lemma typed_row:
  "typed s \<Longrightarrow> u \<in> set (utxos s) \<Longrightarrow>
     sent (parseFloat (u_value u)) = u_value u \<and> stored 128 (u_address u) = u_address u"
  by (simp add: typed_def parseFloat_def stored_short)

lemma updateAddressBalance_Inr:
  assumes "updateAddressBalance s a d = Inr s'"
  shows "blocks s' = blocks s" "transactions s' = transactions s" "utxos s' = utxos s"
    "stored_balance s' a' =
       (if a' = stored 128 a then stored_balance s a' + d else stored_balance s a')"
    "fits 128 a" "int8 d" "int8 (stored_balance s (stored 128 a) + d)"
  using assms
  by (auto simp: updateAddressBalance_def stored_balance_def Let_def
      split: if_splits option.splits)


lemma updateAddressBalance_Inl: "updateAddressBalance s a d = Inl e \<Longrightarrow> e = DatabaseError"
  by (auto simp: updateAddressBalance_def Let_def split: if_splits)

lemma key_spent [simp]: "key (r\<lparr>u_is_spent := b, u_spent_in_tx := t\<rparr>) = key r"
  by (simp add: key_def)

lemma key_unspend [simp]: "key (unspend r) = key r"
  by (simp add: unspend_def)

lemma insert_block_Inr:
  assumes "insert_block s bid h = Inr s'"
  shows "blocks s' = blocks s @ [\<lparr>br_id = stored 64 bid, br_height = h\<rparr>]"
    "transactions s' = transactions s" "utxos s' = utxos s"
    "address_balances s' = address_balances s"
    "stored 64 bid \<notin> set (map br_id (blocks s))" "h \<notin> set (map br_height (blocks s))"
    "int4 h" "fits 64 bid"
  using assms by (auto simp: insert_block_def split: if_splits)

lemma insert_transaction_Inr:
  assumes "insert_transaction s t h = Inr s'"
  shows "\<exists>b \<in> set (blocks s). br_height b = h \<and>
           transactions s' = transactions s @
             [\<lparr>tr_id = stored 64 t, tr_block_id = br_id b, tr_block_height = h\<rparr>]"
    "blocks s' = blocks s" "utxos s' = utxos s"
    "address_balances s' = address_balances s"
    "stored 64 t \<notin> set (map tr_id (transactions s))"
    "fits 64 t" "int4 h"
proof -
  from assms have f: "fits 64 t" "int4 h"
    by (auto simp: insert_transaction_def split: if_splits)
  with assms obtain b where b: "filter (\<lambda>b. br_height b = h) (blocks s) = [b]"
    by (auto simp: insert_transaction_def split: list.splits)
  then have "b \<in> set (filter (\<lambda>b. br_height b = h) (blocks s))" by simp
  then have bb: "b \<in> set (blocks s)" "br_height b = h" by simp_all
  from assms b f have t: "stored 64 t \<notin> set (map tr_id (transactions s))"
    and s': "s' = s\<lparr>transactions := transactions s @
               [\<lparr>tr_id = stored 64 t, tr_block_id = br_id b, tr_block_height = h\<rparr>]\<rparr>"
    by (auto simp: insert_transaction_def split: if_splits)
  from bb s' show "\<exists>b \<in> set (blocks s). br_height b = h \<and>
           transactions s' = transactions s @
             [\<lparr>tr_id = stored 64 t, tr_block_id = br_id b, tr_block_height = h\<rparr>]"
    by auto
  from s' show "blocks s' = blocks s" "utxos s' = utxos s"
    "address_balances s' = address_balances s" by simp_all
  from t show "stored 64 t \<notin> set (map tr_id (transactions s))" .
  from f show "fits 64 t" "int4 h" .
qed

lemma spendUTXO_Inr:
  assumes "spendUTXO s i t = Inr s'"
  shows "\<exists>u \<in> set (utxos s). key u = (in_txId i, in_index i) \<and> \<not> u_is_spent u \<and>
           (\<forall>a. stored_balance s' a =
              stored_balance s a -
                (if stored 128 (u_address u) = a then sent (parseFloat (u_value u)) else 0))"
    "utxos s' = map (\<lambda>r. if key r = (in_txId i, in_index i)
                          then r\<lparr>u_is_spent := True, u_spent_in_tx := Some (stored 64 t)\<rparr>
                          else r) (utxos s)"
    "blocks s' = blocks s" "transactions s' = transactions s"
    "int4 (in_index i)" "fits 64 t"
proof -
  from assms obtain u rest where
    sel: "select_unspent s (in_txId i) (in_index i) = Inr (u # rest)"
    by (auto simp: spendUTXO_def split: sum.splits list.splits)
  then have r: "int4 (in_index i)"
    and fe: "filter (\<lambda>u. key u = (in_txId i, in_index i) \<and> \<not> u_is_spent u) (utxos s) = u # rest"
    by (simp_all add: select_unspent_Inr)
  from filter_Cons_first [OF fe]
  have u: "u \<in> set (utxos s)" "key u = (in_txId i, in_index i)" "\<not> u_is_spent u"
    by simp_all
  from assms sel obtain s1 where m: "mark_spent s t (in_txId i) (in_index i) = Inr s1"
    and s': "updateAddressBalance s1 (u_address u) (- sent (parseFloat (u_value u))) = Inr s'"
    by (auto simp: spendUTXO_def split: sum.splits)
  from m have f: "fits 64 t"
    and s1: "s1 = s\<lparr>utxos := map (\<lambda>r. if utxo_at (in_txId i) (in_index i) r
                   then r\<lparr>u_is_spent := True, u_spent_in_tx := Some (stored 64 t)\<rparr>
                   else r) (utxos s)\<rparr>"
    by (auto simp: mark_spent_def split: if_splits)
  have "\<forall>a. stored_balance s' a =
              stored_balance s a -
                (if stored 128 (u_address u) = a then sent (parseFloat (u_value u)) else 0)"
    using updateAddressBalance_Inr(4) [OF s'] by (simp add: s1 stored_balance_def)
  with u show "\<exists>u \<in> set (utxos s). key u = (in_txId i, in_index i) \<and> \<not> u_is_spent u \<and>
           (\<forall>a. stored_balance s' a =
              stored_balance s a -
                (if stored 128 (u_address u) = a then sent (parseFloat (u_value u)) else 0))"
    by blast
  show "utxos s' = map (\<lambda>r. if key r = (in_txId i, in_index i)
                          then r\<lparr>u_is_spent := True, u_spent_in_tx := Some (stored 64 t)\<rparr>
                          else r) (utxos s)"
    by (simp add: updateAddressBalance_Inr(3) [OF s'] s1 utxo_at_key)
  show "blocks s' = blocks s" "transactions s' = transactions s"
    by (simp_all add: updateAddressBalance_Inr(1,2) [OF s'] s1)
  from r f show "int4 (in_index i)" "fits 64 t" .
qed

lemma spendUTXO_Inl:
  "spendUTXO s i t = Inl e \<Longrightarrow> e = Error InputNotFound \<or> e = DatabaseError"
  by (auto simp: spendUTXO_def select_unspent_def mark_spent_def
      split: sum.splits list.splits if_splits dest: updateAddressBalance_Inl)

lemma spendUTXO_resolves: "spendUTXO s i t = Inr s' \<Longrightarrow> resolves s i"
  using spendUTXO_Inr(1,5) [of s i t s'] by (auto simp: resolves_def input_key_def)

lemma spendUTXO_unresolved: "\<not> resolves s i \<Longrightarrow> \<exists>e. spendUTXO s i t = Inl e"
  by (cases "spendUTXO s i t") (auto dest: spendUTXO_resolves)

lemma createUTXO_Inr:
  assumes "createUTXO s t i out h = Inr s'"
  shows "utxos s' = utxos s @
           [\<lparr>u_tx_id = stored 64 t, u_output_index = i, u_address = stored 128 (out_address out),
             u_value = sent (number (out_value out)), u_is_spent = False, u_spent_in_tx = None,
             u_block_height = h\<rparr>]"
    "(stored 64 t, i) \<notin> key ` set (utxos s)" "stored 64 t \<in> set (map tr_id (transactions s))"
    "blocks s' = blocks s" "transactions s' = transactions s"
    "stored_balance s' a =
       stored_balance s a +
         (if stored 128 (out_address out) = a then sent (number (out_value out)) else 0)"
proof -
  from assms obtain s1 where
    s1: "insert_utxo s t i (out_address out) (sent (number (out_value out))) h = Inr s1"
    and s': "updateAddressBalance s1 (out_address out) (sent (number (out_value out))) = Inr s'"
    by (auto simp: createUTXO_def split: sum.splits)
  from s1 have k: "(stored 64 t, i) \<notin> key ` set (utxos s)"
    "stored 64 t \<in> set (map tr_id (transactions s))"
    and e: "s1 = s\<lparr>utxos := utxos s @
             [\<lparr>u_tx_id = stored 64 t, u_output_index = i, u_address = stored 128 (out_address out),
               u_value = sent (number (out_value out)), u_is_spent = False, u_spent_in_tx = None,
               u_block_height = h\<rparr>]\<rparr>"
    by (auto simp: insert_utxo_def utxo_at_key split: if_splits)
  from k show "(stored 64 t, i) \<notin> key ` set (utxos s)"
    "stored 64 t \<in> set (map tr_id (transactions s))" .
  show "utxos s' = utxos s @
           [\<lparr>u_tx_id = stored 64 t, u_output_index = i, u_address = stored 128 (out_address out),
             u_value = sent (number (out_value out)), u_is_spent = False, u_spent_in_tx = None,
             u_block_height = h\<rparr>]"
    by (simp add: updateAddressBalance_Inr(3) [OF s'] e)
  show "blocks s' = blocks s" "transactions s' = transactions s"
    by (simp_all add: updateAddressBalance_Inr(1,2) [OF s'] e)
  show "stored_balance s' a =
       stored_balance s a +
         (if stored 128 (out_address out) = a then sent (number (out_value out)) else 0)"
    using updateAddressBalance_Inr(4) [OF s', of a] by (auto simp: e stored_balance_def)
qed

lemma createUTXO_Inl: "createUTXO s t i out h = Inl e \<Longrightarrow> e = DatabaseError"
  by (auto simp: createUTXO_def insert_utxo_def split: if_splits sum.splits
      dest: updateAddressBalance_Inl)

section \<open>The invariant under the statements of \<^verbatim>\<open>processBlock\<close>\<close>

lemma sum_spend:
  assumes "distinct (map key us)" "u \<in> set us" "\<not> u_is_spent u"
  shows "sum_list (map u_value (filter (\<lambda>r. u_address r = a \<and> \<not> u_is_spent r)
           (map (\<lambda>r. if key r = key u then r\<lparr>u_is_spent := True, u_spent_in_tx := t\<rparr> else r) us)))
       = sum_list (map u_value (filter (\<lambda>r. u_address r = a \<and> \<not> u_is_spent r) us))
         - (if u_address u = a then u_value u else 0)"
  using assms
proof (induction us)
  case Nil
  then show ?case by simp
next
  case (Cons x us)
  show ?case
  proof (cases "x = u")
    case True
    with Cons.prems have "key u \<notin> key ` set us" by simp
    then have "\<forall>r \<in> set us. key r \<noteq> key u" by (metis imageI)
    then have "map (\<lambda>r. if key r = key u then r\<lparr>u_is_spent := True, u_spent_in_tx := t\<rparr> else r) us = us"
      by (simp add: map_idI)
    with True Cons.prems show ?thesis by simp
  next
    case False
    with Cons.prems have "u \<in> set us" "key x \<noteq> key u" "distinct (map key us)" by auto
    with Cons.IH Cons.prems show ?thesis by simp
  qed
qed

lemma balanced_spendUTXO:
  assumes "balanced s" "typed s" "distinct (map key (utxos s))" "spendUTXO s i t = Inr s'"
  shows "balanced s'"
proof -
  from spendUTXO_Inr(1) [OF assms(4)] obtain u where
    u: "u \<in> set (utxos s)" "key u = (in_txId i, in_index i)" "\<not> u_is_spent u"
    and b0: "\<And>a. stored_balance s' a =
              stored_balance s a -
                (if stored 128 (u_address u) = a then sent (parseFloat (u_value u)) else 0)"
    by blast
  from b0 typed_row [OF assms(2) u(1)]
  have b: "\<And>a. stored_balance s' a =
              stored_balance s a - (if u_address u = a then u_value u else 0)"
    by simp
  have "\<And>a. unspent_sum s' a = unspent_sum s a - (if u_address u = a then u_value u else 0)"
    unfolding unspent_sum_def spendUTXO_Inr(2) [OF assms(4)] u(2) [symmetric]
    using sum_spend [OF assms(3) u(1) u(3)] by simp
  with b assms(1) show ?thesis by (simp add: balanced_def)
qed

lemma balanced_createUTXO:
  assumes "balanced s" "createUTXO s t i out h = Inr s'"
  shows "balanced s'"
  using assms(1) createUTXO_Inr(1,6) [OF assms(2)]
  by (simp add: balanced_def unspent_sum_def)

lemma balanced_insert_transaction:
  assumes "balanced s" "insert_transaction s t h = Inr s'"
  shows "balanced s'"
  using assms(1) insert_transaction_Inr(3,4) [OF assms(2)]
  by (simp add: balanced_def unspent_sum_def stored_balance_def)

lemma balanced_insert_block:
  assumes "balanced s" "insert_block s bid h = Inr s'"
  shows "balanced s'"
  using assms(1) insert_block_Inr(3,4) [OF assms(2)]
  by (simp add: balanced_def unspent_sum_def stored_balance_def)

lemma typed_spendUTXO:
  assumes "typed s" "spendUTXO s i t = Inr s'"
  shows "typed s'"
  using assms(1) unfolding typed_def spendUTXO_Inr(2) [OF assms(2)] by auto

lemma typed_createUTXO:
  assumes "typed s" "createUTXO s t i out h = Inr s'"
  shows "typed s'"
  using assms(1) unfolding typed_def createUTXO_Inr(1) [OF assms(2)]
  by (auto simp: sent_number stored_length)

lemma consistent_spendUTXO:
  assumes "consistent s" "spendUTXO s i t = Inr s'"
  shows "consistent s'"
proof -
  have k: "map key (utxos s') = map key (utxos s)"
    by (simp add: spendUTXO_Inr(2) [OF assms(2)] comp_def if_distrib cong: if_cong)
  have f: "\<forall>u' \<in> set (utxos s'). \<exists>u \<in> set (utxos s).
             u_tx_id u' = u_tx_id u \<and> u_block_height u' = u_block_height u"
    by (auto simp: spendUTXO_Inr(2) [OF assms(2)])
  from assms(1) k f show ?thesis
    unfolding consistent_def spendUTXO_Inr(3,4) [OF assms(2)]
    by (metis (no_types, lifting))
qed


lemma consistent_createUTXO:
  assumes "consistent s" "createUTXO s t i out h = Inr s'"
    "\<exists>r \<in> set (transactions s). tr_id r = stored 64 t \<and> tr_block_height r = h"
  shows "consistent s'"
  using assms(1,3) createUTXO_Inr(2) [OF assms(2)]
  unfolding consistent_def createUTXO_Inr(1,4,5) [OF assms(2)]
  by (auto simp: key_def)

lemma consistent_insert_transaction:
  assumes "consistent s" "insert_transaction s t h = Inr s'"
  shows "consistent s'"
proof -
  from insert_transaction_Inr(1) [OF assms(2)] obtain b where
    b: "b \<in> set (blocks s)" "br_height b = h"
    "transactions s' = transactions s @
       [\<lparr>tr_id = stored 64 t, tr_block_id = br_id b, tr_block_height = h\<rparr>]"
    by blast
  from assms(1) b(1,2) insert_transaction_Inr(5) [OF assms(2)] show ?thesis
    unfolding consistent_def insert_transaction_Inr(2,3) [OF assms(2)] b(3)
    by auto
qed

lemma consistent_insert_block:
  assumes "consistent s" "insert_block s bid h = Inr s'"
  shows "consistent s'"
  using assms(1) insert_block_Inr(5,6) [OF assms(2)]
  unfolding consistent_def insert_block_Inr(1,2,3) [OF assms(2)]
  by auto

lemma distinct_key_eq:
  "distinct (map key us) \<Longrightarrow> u \<in> set us \<Longrightarrow> v \<in> set us \<Longrightarrow> key u = key v \<Longrightarrow> u = v"
  by (meson distinct_map inj_onD)

lemma spends_ok_spendUTXO:
  assumes "spends_ok s" "spendUTXO s i t = Inr s'" "has_tx s (stored 64 t) h"
    "\<forall>u \<in> set (utxos s). key u = (in_txId i, in_index i) \<longrightarrow> u_block_height u < h"
  shows "spends_ok s'"
  unfolding spends_ok_def
proof (intro ballI)
  fix u' assume "u' \<in> set (utxos s')"
  then obtain u where u: "u \<in> set (utxos s)"
    and u': "u' = (if key u = (in_txId i, in_index i)
                   then u\<lparr>u_is_spent := True, u_spent_in_tx := Some (stored 64 t)\<rparr> else u)"
    by (auto simp: spendUTXO_Inr(2) [OF assms(2)])
  show "(u_is_spent u' \<longleftrightarrow> u_spent_in_tx u' \<noteq> None) \<and>
        (\<forall>t'. u_spent_in_tx u' = Some t' \<longrightarrow>
           (\<exists>r \<in> set (transactions s'). tr_id r = t' \<and> u_block_height u' < tr_block_height r))"
  proof (cases "key u = (in_txId i, in_index i)")
    case True
    with assms(4) u have "u_block_height u < h" by blast
    with assms(3) True u' show ?thesis
      by (auto simp: has_tx_def spendUTXO_Inr(4) [OF assms(2)])
  next
    case False
    with assms(1) u u' show ?thesis
      by (simp add: spends_ok_def spendUTXO_Inr(4) [OF assms(2)])
  qed
qed

lemma spends_ok_createUTXO:
  assumes "spends_ok s" "createUTXO s t i out h = Inr s'"
  shows "spends_ok s'"
  using assms(1)
  unfolding spends_ok_def createUTXO_Inr(1,5) [OF assms(2)]
  by auto

lemma spends_ok_insert_transaction:
  assumes "spends_ok s" "insert_transaction s t h = Inr s'"
  shows "spends_ok s'"
proof -
  from insert_transaction_Inr(1) [OF assms(2)]
  have "set (transactions s) \<subseteq> set (transactions s')" by auto
  with assms(1) show ?thesis
    unfolding spends_ok_def insert_transaction_Inr(3) [OF assms(2)]
    by (meson subsetD)
qed

lemma spends_ok_insert_block:
  assumes "spends_ok s" "insert_block s bid h = Inr s'"
  shows "spends_ok s'"
  using assms(1) unfolding spends_ok_def insert_block_Inr(2,3) [OF assms(2)] .

lemma old_rows_spendUTXO:
  assumes "old_rows K h s" "spendUTXO s i t = Inr s'"
  shows "old_rows K h s'"
  unfolding old_rows_def
proof
  fix k assume "k \<in> K"
  with assms(1) obtain u where u: "u \<in> set (utxos s)" "key u = k" "u_block_height u < h"
    by (auto simp: old_rows_def)
  let ?f = "\<lambda>r. if key r = (in_txId i, in_index i)
                  then r\<lparr>u_is_spent := True, u_spent_in_tx := Some (stored 64 t)\<rparr> else r"
  from u(1) have "?f u \<in> set (utxos s')"
    unfolding spendUTXO_Inr(2) [OF assms(2)] set_map by (rule imageI)
  moreover from u have "key (?f u) = k" "u_block_height (?f u) < h" by simp_all
  ultimately show "\<exists>u \<in> set (utxos s'). key u = k \<and> u_block_height u < h" by blast
qed

lemma old_rows_createUTXO:
  assumes "old_rows K h s" "createUTXO s t i out h' = Inr s'"
  shows "old_rows K h s'"
  using assms(1) unfolding old_rows_def createUTXO_Inr(1) [OF assms(2)] by auto

lemma old_rows_height:
  assumes "old_rows K h s" "distinct (map key (utxos s))" "k \<in> K"
  shows "\<forall>u \<in> set (utxos s). key u = k \<longrightarrow> u_block_height u < h"
proof (intro ballI impI)
  fix u assume u: "u \<in> set (utxos s)" "key u = k"
  from assms(1,3) obtain v where v: "v \<in> set (utxos s)" "key v = k" "u_block_height v < h"
    by (auto simp: old_rows_def)
  with u assms(2) have "u = v" by (metis distinct_key_eq)
  with v show "u_block_height u < h" by simp
qed

lemma has_tx_spendUTXO: "has_tx s t h \<Longrightarrow> spendUTXO s i t' = Inr s' \<Longrightarrow> has_tx s' t h"
  by (simp add: has_tx_def spendUTXO_Inr(4))

lemma has_tx_createUTXO: "has_tx s t h \<Longrightarrow> createUTXO s t' i out h' = Inr s' \<Longrightarrow> has_tx s' t h"
  by (simp add: has_tx_def createUTXO_Inr(5))

lemma heights_ok_same: "blocks s' = blocks s \<Longrightarrow> heights_ok s \<Longrightarrow> heights_ok s'"
  by (simp add: heights_ok_def)

lemma inv_spendUTXO:
  assumes "ledger_inv s" "old_rows K h s" "(in_txId i, in_index i) \<in> K" "has_tx s (stored 64 t) h"
    "spendUTXO s i t = Inr s'"
  shows "ledger_inv s' \<and> old_rows K h s' \<and> has_tx s' (stored 64 t) h"
proof -
  from assms(1) have c: "consistent s" and d: "distinct (map key (utxos s))"
    and ty: "typed s"
    by (simp_all add: ledger_inv_def consistent_def)
  have "spends_ok s'"
    using assms(1) old_rows_height [OF assms(2) d assms(3)]
    by (intro spends_ok_spendUTXO [OF _ assms(5) assms(4)]) (simp_all add: ledger_inv_def)
  moreover have "balanced s'"
    using assms(1) d ty
    by (intro balanced_spendUTXO [OF _ _ _ assms(5)]) (simp_all add: ledger_inv_def)
  moreover have "heights_ok s'"
    using assms(1) spendUTXO_Inr(3) [OF assms(5)] by (simp add: ledger_inv_def heights_ok_def)
  ultimately show ?thesis
    using consistent_spendUTXO [OF c assms(5)] old_rows_spendUTXO [OF assms(2,5)]
      has_tx_spendUTXO [OF assms(4,5)] typed_spendUTXO [OF ty assms(5)]
    by (simp add: ledger_inv_def)
qed

lemma inv_createUTXO:
  assumes "ledger_inv s" "old_rows K h s" "has_tx s (stored 64 t) h"
    "createUTXO s t i out h = Inr s'"
  shows "ledger_inv s' \<and> old_rows K h s' \<and> has_tx s' (stored 64 t) h"
proof -
  from assms(1) have c: "consistent s" and ty: "typed s" by (simp_all add: ledger_inv_def)
  have "consistent s'"
    using assms(3) by (intro consistent_createUTXO [OF c assms(4)]) (simp add: has_tx_def)
  moreover have "heights_ok s'"
    using assms(1) createUTXO_Inr(4) [OF assms(4)] by (simp add: ledger_inv_def heights_ok_def)
  ultimately show ?thesis
    using assms(1) spends_ok_createUTXO [OF _ assms(4)] balanced_createUTXO [OF _ assms(4)]
      old_rows_createUTXO [OF assms(2,4)] has_tx_createUTXO [OF assms(3,4)]
      typed_createUTXO [OF ty assms(4)]
    by (simp add: ledger_inv_def)
qed

lemma inv_spendInputs:
  assumes "ledger_inv s" "old_rows K h s" "\<forall>i \<in> set ins. (in_txId i, in_index i) \<in> K"
    "has_tx s (stored 64 t) h" "spendInputs s ins t = Inr s'"
  shows "ledger_inv s' \<and> old_rows K h s' \<and> has_tx s' (stored 64 t) h"
  using assms
proof (induction ins arbitrary: s)
  case Nil
  then show ?case by simp
next
  case (Cons i ins)
  from Cons.prems(5) obtain s1 where s1: "spendUTXO s i t = Inr s1" "spendInputs s1 ins t = Inr s'"
    by (auto split: sum.splits)
  from Cons.prems(3) have "(in_txId i, in_index i) \<in> K" by simp
  from inv_spendUTXO [OF Cons.prems(1,2) this Cons.prems(4) s1(1)] Cons.prems(3) s1(2)
  show ?case by (intro Cons.IH) simp_all
qed

lemma inv_createOutputs:
  assumes "ledger_inv s" "old_rows K h s" "has_tx s (stored 64 t) h"
    "createOutputs s t i outs h = Inr s'"
  shows "ledger_inv s' \<and> old_rows K h s' \<and> has_tx s' (stored 64 t) h"
  using assms
proof (induction outs arbitrary: s i)
  case Nil
  then show ?case by simp
next
  case (Cons out outs)
  from Cons.prems(4) obtain s1 where s1: "createUTXO s t i out h = Inr s1"
    "createOutputs s1 t (i + 1) outs h = Inr s'"
    by (auto split: sum.splits)
  from inv_createUTXO [OF Cons.prems(1,2,3) s1(1)] s1(2)
  show ?case by (intro Cons.IH) simp_all
qed

lemma inv_insert_transaction:
  assumes "ledger_inv s" "old_rows K h s" "insert_transaction s t h = Inr s'"
  shows "ledger_inv s' \<and> old_rows K h s' \<and> has_tx s' (stored 64 t) h"
proof -
  from insert_transaction_Inr(1) [OF assms(3)] have "has_tx s' (stored 64 t) h"
    by (auto simp: has_tx_def)
  moreover have "old_rows K h s'"
    using assms(2) by (simp add: old_rows_def insert_transaction_Inr(3) [OF assms(3)])
  moreover have "heights_ok s'"
    using assms(1) by (simp add: ledger_inv_def heights_ok_def insert_transaction_Inr(2) [OF assms(3)])
  moreover have "typed s'"
    using assms(1) by (simp add: ledger_inv_def typed_def insert_transaction_Inr(3) [OF assms(3)])
  ultimately show ?thesis
    using assms(1) consistent_insert_transaction [OF _ assms(3)]
      spends_ok_insert_transaction [OF _ assms(3)] balanced_insert_transaction [OF _ assms(3)]
    by (simp add: ledger_inv_def)
qed

lemma inv_processTransaction:
  assumes "ledger_inv s" "old_rows K h s"
    "\<forall>i \<in> set (tx_inputs t). (in_txId i, in_index i) \<in> K"
    "processTransaction s t h = Inr s'"
  shows "ledger_inv s' \<and> old_rows K h s'"
proof -
  from assms(4) obtain s1 s2 where
    s1: "insert_transaction s (tx_id t) h = Inr s1"
    and s2: "spendInputs s1 (tx_inputs t) (tx_id t) = Inr s2"
    and s3: "createOutputs s2 (tx_id t) 0 (tx_outputs t) h = Inr s'"
    by (auto simp: processTransaction_def split: sum.splits)
  from inv_insert_transaction [OF assms(1,2) s1]
  have 1: "ledger_inv s1" "old_rows K h s1" "has_tx s1 (stored 64 (tx_id t)) h" by simp_all
  from inv_spendInputs [OF 1(1,2) assms(3) 1(3) s2]
  have 2: "ledger_inv s2" "old_rows K h s2" "has_tx s2 (stored 64 (tx_id t)) h" by simp_all
  from inv_createOutputs [OF 2 s3] show ?thesis by simp
qed

lemma inv_processTransactions:
  assumes "ledger_inv s" "old_rows K h s"
    "\<forall>t \<in> set ts. \<forall>i \<in> set (tx_inputs t). (in_txId i, in_index i) \<in> K"
    "processTransactions s ts h = Inr s'"
  shows "ledger_inv s' \<and> old_rows K h s'"
  using assms
proof (induction ts arbitrary: s)
  case Nil
  then show ?case by simp
next
  case (Cons t ts)
  from Cons.prems(4) obtain s1 where s1: "processTransaction s t h = Inr s1"
    "processTransactions s1 ts h = Inr s'"
    by (auto split: sum.splits)
  from Cons.prems(3) have "\<forall>i \<in> set (tx_inputs t). (in_txId i, in_index i) \<in> K" by simp
  from inv_processTransaction [OF Cons.prems(1,2) this s1(1)] Cons.prems(3) s1(2)
  show ?case by (intro Cons.IH) simp_all
qed

lemma currentHeight_ge: "b \<in> set (blocks s) \<Longrightarrow> br_height b \<le> currentHeight s"
  by (auto simp: currentHeight_Max)

lemma currentHeight_nonneg: "heights_ok s \<Longrightarrow> 0 \<le> currentHeight s"
proof (cases "blocks s")
  case Nil
  then show ?thesis by (simp add: currentHeight_def)
next
  case (Cons b bs)
  assume "heights_ok s"
  with Cons have "0 < br_height b" by (simp add: heights_ok_def)
  moreover from Cons have "br_height b \<le> currentHeight s" by (simp add: currentHeight_ge)
  ultimately show ?thesis by simp
qed

lemma consistent_utxo_height:
  assumes "consistent s" "u \<in> set (utxos s)"
  shows "u_block_height u \<le> currentHeight s"
proof -
  from assms obtain r where r: "r \<in> set (transactions s)" "tr_block_height r = u_block_height u"
    unfolding consistent_def by blast
  with assms(1) obtain b where "b \<in> set (blocks s)" "br_height b = tr_block_height r"
    unfolding consistent_def by blast
  with r show ?thesis by (metis currentHeight_ge)
qed

lemma resolves_key: "resolves s i \<Longrightarrow> (in_txId i, in_index i) \<in> key ` set (utxos s)"
  by (auto simp: resolves_def input_key_def intro: rev_image_eqI)

lemma inv_applyBlock:
  assumes "ledger_inv s" "validateBlock H s b = None" "applyBlock b s = Inr s'"
  shows "ledger_inv s'"
proof -
  let ?h = "blk_height b" and ?K = "key ` set (utxos s)"
  from assms(2) have h: "?h = currentHeight s + 1"
    and v: "\<forall>t \<in> set (blk_transactions b). validateTransaction s t = None"
    by (simp_all add: validateBlock_None)
  from assms(3) obtain s1 where s1: "insert_block s (blk_id b) ?h = Inr s1"
    and s2: "processTransactions s1 (blk_transactions b) ?h = Inr s'"
    by (auto simp: applyBlock_def split: sum.splits)
  from assms(1) have c: "consistent s" and ho: "heights_ok s" by (simp_all add: ledger_inv_def)
  from currentHeight_nonneg [OF ho] h have "0 < ?h" by simp
  with ho have "heights_ok s1"
    by (auto simp: heights_ok_def insert_block_Inr(1) [OF s1])
  moreover from assms(1) have "typed s1"
    by (simp add: ledger_inv_def typed_def insert_block_Inr(3) [OF s1])
  ultimately have 1: "ledger_inv s1"
    using assms(1) consistent_insert_block [OF _ s1] spends_ok_insert_block [OF _ s1]
      balanced_insert_block [OF _ s1]
    by (simp add: ledger_inv_def)
  have "old_rows ?K ?h s"
    unfolding old_rows_def
  proof
    fix k assume "k \<in> ?K"
    then obtain u where u: "u \<in> set (utxos s)" "key u = k" by auto
    with consistent_utxo_height [OF c u(1)] h
    show "\<exists>u \<in> set (utxos s). key u = k \<and> u_block_height u < ?h" by force
  qed
  then have 2: "old_rows ?K ?h s1"
    by (simp add: old_rows_def insert_block_Inr(3) [OF s1])
  have 3: "\<forall>t \<in> set (blk_transactions b). \<forall>i \<in> set (tx_inputs t). (in_txId i, in_index i) \<in> ?K"
  proof (intro ballI)
    fix t i assume "t \<in> set (blk_transactions b)" "i \<in> set (tx_inputs t)"
    with v have "validateTransaction s t = None" by simp
    from validated_keys [OF this] \<open>i \<in> set (tx_inputs t)\<close>
    have "resolves s i" by simp
    then show "(in_txId i, in_index i) \<in> ?K" by (rule resolves_key)
  qed
  from inv_processTransactions [OF 1 2 3 s2] show ?thesis by simp
qed

lemma ledger_inv_empty: "ledger_inv empty_store"
  by (simp add: ledger_inv_def consistent_def spends_ok_def heights_ok_def balanced_def
      unspent_sum_def stored_balance_def typed_def empty_store_def)

lemma inv_submitBlock:
  assumes "ledger_inv s" "submitBlock H s b = (None, s')"
  shows "ledger_inv s'"
  using assms inv_applyBlock by (auto simp: submitBlock_result)

section \<open>What the rollback of a transaction does\<close>

lemma removeOutputs_Inr:
  assumes "removeOutputs s rs = Inr s'"
  shows "blocks s' = blocks s" "transactions s' = transactions s" "utxos s' = utxos s"
    "stored_balance s' a =
       stored_balance s a -
         sum_list (map (\<lambda>u. sent (parseFloat (u_value u)))
           (filter (\<lambda>u. stored 128 (u_address u) = a) rs))"
  using assms
proof (induction rs arbitrary: s)
  case Nil
  { case 1 then show ?case by simp }
  { case 2 then show ?case by simp }
  { case 3 then show ?case by simp }
  { case 4 then show ?case by simp }
next
  case (Cons r rs)
  { case 1
    then obtain s1 where s1: "updateAddressBalance s (u_address r) (- sent (parseFloat (u_value r))) = Inr s1"
      "removeOutputs s1 rs = Inr s'" by (auto split: sum.splits)
    from Cons.IH(1) [OF s1(2)] updateAddressBalance_Inr(1) [OF s1(1)] show ?case by simp }
  { case 2
    then obtain s1 where s1: "updateAddressBalance s (u_address r) (- sent (parseFloat (u_value r))) = Inr s1"
      "removeOutputs s1 rs = Inr s'" by (auto split: sum.splits)
    from Cons.IH(2) [OF s1(2)] updateAddressBalance_Inr(2) [OF s1(1)] show ?case by simp }
  { case 3
    then obtain s1 where s1: "updateAddressBalance s (u_address r) (- sent (parseFloat (u_value r))) = Inr s1"
      "removeOutputs s1 rs = Inr s'" by (auto split: sum.splits)
    from Cons.IH(3) [OF s1(2)] updateAddressBalance_Inr(3) [OF s1(1)] show ?case by simp }
  { case 4
    then obtain s1 where s1: "updateAddressBalance s (u_address r) (- sent (parseFloat (u_value r))) = Inr s1"
      "removeOutputs s1 rs = Inr s'" by (auto split: sum.splits)
    from Cons.IH(4) [OF s1(2)] updateAddressBalance_Inr(4) [OF s1(1), of a] show ?case by simp }
qed

lemma stored_balance_utxos [simp]:
  "stored_balance (s\<lparr>utxos := us\<rparr>) a = stored_balance s a"
  by (simp add: stored_balance_def)

lemma restoreInputs_Cons:
  assumes "restoreInputs s (x # rs) = Inr s'"
  obtains s2 where
    "updateAddressBalance
       (s\<lparr>utxos := map (\<lambda>r. if utxo_at (u_tx_id x) (u_output_index x) r
                             then unspend r else r) (utxos s)\<rparr>)
       (u_address x) (sent (parseFloat (u_value x))) = Inr s2"
    "restoreInputs s2 rs = Inr s'"
  using assms by (auto simp: Let_def split: sum.splits)

lemma restoreInputs_Inr:
  assumes "restoreInputs s rs = Inr s'"
  shows "blocks s' = blocks s" "transactions s' = transactions s"
    "utxos s' = map (\<lambda>r. if key r \<in> key ` set rs then unspend r else r) (utxos s)"
    "stored_balance s' a =
       stored_balance s a +
         sum_list (map (\<lambda>u. sent (parseFloat (u_value u)))
           (filter (\<lambda>u. stored 128 (u_address u) = a) rs))"
  using assms
proof (induction rs arbitrary: s)
  case Nil
  { case 1 then show ?case by simp }
  { case 2 then show ?case by simp }
  { case 3 then show ?case by simp }
  { case 4 then show ?case by simp }
next
  case (Cons x rs)
  { case 1
    then obtain s2 where s2: "updateAddressBalance
       (s\<lparr>utxos := map (\<lambda>r. if utxo_at (u_tx_id x) (u_output_index x) r
                             then unspend r else r) (utxos s)\<rparr>)
       (u_address x) (sent (parseFloat (u_value x))) = Inr s2"
      "restoreInputs s2 rs = Inr s'" by (rule restoreInputs_Cons)
    from Cons.IH(1) [OF s2(2)] updateAddressBalance_Inr(1) [OF s2(1)] show ?case by simp }
  { case 2
    then obtain s2 where s2: "updateAddressBalance
       (s\<lparr>utxos := map (\<lambda>r. if utxo_at (u_tx_id x) (u_output_index x) r
                             then unspend r else r) (utxos s)\<rparr>)
       (u_address x) (sent (parseFloat (u_value x))) = Inr s2"
      "restoreInputs s2 rs = Inr s'" by (rule restoreInputs_Cons)
    from Cons.IH(2) [OF s2(2)] updateAddressBalance_Inr(2) [OF s2(1)] show ?case by simp }
  { case 3
    then obtain s2 where s2: "updateAddressBalance
       (s\<lparr>utxos := map (\<lambda>r. if utxo_at (u_tx_id x) (u_output_index x) r
                             then unspend r else r) (utxos s)\<rparr>)
       (u_address x) (sent (parseFloat (u_value x))) = Inr s2"
      "restoreInputs s2 rs = Inr s'" by (rule restoreInputs_Cons)
    have "\<And>r. (if key (if key r = key x then unspend r else r) \<in> key ` set rs
              then unspend (if key r = key x then unspend r else r)
              else (if key r = key x then unspend r else r))
          = (if key r = key x \<or> key r \<in> key ` set rs then unspend r else r)"
      by (simp add: unspend_def)
    with Cons.IH(3) [OF s2(2)] updateAddressBalance_Inr(3) [OF s2(1)] show ?case
      by (simp add: utxo_at_key key_def [of x, symmetric] comp_def) }
  { case 4
    then obtain s2 where s2: "updateAddressBalance
       (s\<lparr>utxos := map (\<lambda>r. if utxo_at (u_tx_id x) (u_output_index x) r
                             then unspend r else r) (utxos s)\<rparr>)
       (u_address x) (sent (parseFloat (u_value x))) = Inr s2"
      "restoreInputs s2 rs = Inr s'" by (rule restoreInputs_Cons)
    from Cons.IH(4) [OF s2(2)] updateAddressBalance_Inr(4) [OF s2(1), of a] show ?case by simp }
qed

lemma restored_rows:
  assumes "distinct (map key us)"
  shows "map (\<lambda>r. if key r \<in> key ` set (filter P us) then unspend r else r) us
       = map (\<lambda>r. if P r then unspend r else r) us"
proof (rule map_cong [OF refl])
  fix r assume r: "r \<in> set us"
  have "key r \<in> key ` set (filter P us) \<longleftrightarrow> P r"
  proof
    assume "key r \<in> key ` set (filter P us)"
    then obtain v where v: "v \<in> set us" "P v" "key r = key v" by auto
    with r assms have "r = v" by (metis distinct_key_eq)
    with v show "P r" by simp
  next
    assume "P r"
    with r show "key r \<in> key ` set (filter P us)" by auto
  qed
  then show "(if key r \<in> key ` set (filter P us) then unspend r else r)
           = (if P r then unspend r else r)" by simp
qed

lemma rollbackTransaction_Inr:
  assumes "rollbackTransaction s t = Inr s'"
  obtains s1 s3 where "removeOutputs s (filter (\<lambda>u. u_tx_id u = t) (utxos s)) = Inr s1"
    "restoreInputs (delete_utxos_of s1 t)
       (filter (\<lambda>u. u_spent_in_tx u = Some t) (utxos (delete_utxos_of s1 t))) = Inr s3"
    "s' = delete_transaction s3 t"
  using assms by (auto simp: rollbackTransaction_def Let_def split: sum.splits)

lemma rollbackTransaction_fields:
  assumes "rollbackTransaction s t = Inr s'"
  shows "blocks s' = blocks s"
    "transactions s' = filter (\<lambda>r. tr_id r \<noteq> t) (transactions s)"
proof -
  from assms obtain s1 s3 where
    1: "removeOutputs s (filter (\<lambda>u. u_tx_id u = t) (utxos s)) = Inr s1"
    and 3: "restoreInputs (delete_utxos_of s1 t)
       (filter (\<lambda>u. u_spent_in_tx u = Some t) (utxos (delete_utxos_of s1 t))) = Inr s3"
    and s': "s' = delete_transaction s3 t"
    by (rule rollbackTransaction_Inr)
  show "blocks s' = blocks s"
    "transactions s' = filter (\<lambda>r. tr_id r \<noteq> t) (transactions s)"
    by (simp_all add: s' delete_transaction_def restoreInputs_Inr(1,2) [OF 3]
        delete_utxos_of_def removeOutputs_Inr(1,2) [OF 1])
qed

lemma rollbackTransaction_utxos_raw:
  assumes "rollbackTransaction s t = Inr s'"
  shows "utxos s' =
     filter (\<lambda>u. u_tx_id u \<noteq> t)
       (map (\<lambda>r. if key r \<in> key ` set (filter (\<lambda>u. u_spent_in_tx u = Some t)
                                        (filter (\<lambda>u. u_tx_id u \<noteq> t) (utxos s)))
                  then unspend r else r) (filter (\<lambda>u. u_tx_id u \<noteq> t) (utxos s)))"
proof -
  from assms obtain s1 s3 where
    1: "removeOutputs s (filter (\<lambda>u. u_tx_id u = t) (utxos s)) = Inr s1"
    and 3: "restoreInputs (delete_utxos_of s1 t)
       (filter (\<lambda>u. u_spent_in_tx u = Some t) (utxos (delete_utxos_of s1 t))) = Inr s3"
    and s': "s' = delete_transaction s3 t"
    by (rule rollbackTransaction_Inr)
  show ?thesis
    by (simp add: s' delete_transaction_def restoreInputs_Inr(3) [OF 3]
        delete_utxos_of_def removeOutputs_Inr(3) [OF 1])
qed

lemma rollbackTransaction_utxos:
  assumes "distinct (map key (utxos s))" "rollbackTransaction s t = Inr s'"
  shows "utxos s' = undone {t} (utxos s)"
proof -
  let ?us = "filter (\<lambda>u. u_tx_id u \<noteq> t) (utxos s)"
  from assms have d: "distinct (map key ?us)" by (simp add: distinct_map_filter)
  have "utxos s' =
          filter (\<lambda>u. u_tx_id u \<noteq> t)
            (map (\<lambda>r. if key r \<in> key ` set (filter (\<lambda>u. u_spent_in_tx u = Some t) ?us)
                       then unspend r else r) ?us)"
    by (rule rollbackTransaction_utxos_raw [OF assms(2)])
  also have "\<dots> = filter (\<lambda>u. u_tx_id u \<noteq> t)
            (map (\<lambda>r. if u_spent_in_tx r = Some t then unspend r else r) ?us)"
    by (simp only: restored_rows [OF d])
  also have "\<dots> = map (\<lambda>r. if u_spent_in_tx r = Some t then unspend r else r) ?us"
    by (rule filter_True) (auto simp: unspend_def)
  finally show ?thesis by (simp add: undone_def)
qed

lemma rollbackTransaction_balance_raw:
  assumes "rollbackTransaction s t = Inr s'"
  shows "stored_balance s' a =
     stored_balance s a
     - sum_list (map (\<lambda>u. sent (parseFloat (u_value u))) (filter (\<lambda>u. stored 128 (u_address u) = a)
         (filter (\<lambda>u. u_tx_id u = t) (utxos s))))
     + sum_list (map (\<lambda>u. sent (parseFloat (u_value u))) (filter (\<lambda>u. stored 128 (u_address u) = a)
         (filter (\<lambda>u. u_spent_in_tx u = Some t) (filter (\<lambda>u. u_tx_id u \<noteq> t) (utxos s)))))"
proof -
  from assms obtain s1 s3 where
    1: "removeOutputs s (filter (\<lambda>u. u_tx_id u = t) (utxos s)) = Inr s1"
    and 3: "restoreInputs (delete_utxos_of s1 t)
       (filter (\<lambda>u. u_spent_in_tx u = Some t) (utxos (delete_utxos_of s1 t))) = Inr s3"
    and s': "s' = delete_transaction s3 t"
    by (rule rollbackTransaction_Inr)
  have g: "\<And>s t. stored_balance (delete_transaction s t) a = stored_balance s a"
    "\<And>s t. stored_balance (delete_utxos_of s t) a = stored_balance s a"
    by (simp_all add: stored_balance_def delete_transaction_def delete_utxos_of_def)
  have u: "utxos (delete_utxos_of s1 t) = filter (\<lambda>u. u_tx_id u \<noteq> t) (utxos s)"
    by (simp add: delete_utxos_of_def removeOutputs_Inr(3) [OF 1])
  show ?thesis
    using restoreInputs_Inr(4) [OF 3, of a] removeOutputs_Inr(4) [OF 1, of a]
    by (simp add: s' g u)
qed

lemma typed_sum:
  assumes "\<forall>u \<in> set us. sent (parseFloat (u_value u)) = u_value u \<and> length (u_address u) \<le> 128"
  shows "sum_list (map (\<lambda>u. sent (parseFloat (u_value u))) (filter (\<lambda>u. stored 128 (u_address u) = a) us))
       = sum_list (map u_value (filter (\<lambda>u. u_address u = a) us))"
  using assms by (induction us) (simp_all add: parseFloat_def stored_short)

lemma rollbackTransaction_balance:
  assumes "typed s" "rollbackTransaction s t = Inr s'"
  shows "stored_balance s' a =
     stored_balance s a
     - sum_list (map u_value (filter (\<lambda>u. u_address u = a)
         (filter (\<lambda>u. u_tx_id u = t) (utxos s))))
     + sum_list (map u_value (filter (\<lambda>u. u_address u = a)
         (filter (\<lambda>u. u_spent_in_tx u = Some t) (filter (\<lambda>u. u_tx_id u \<noteq> t) (utxos s)))))"
proof -
  from assms(1) have
    "\<forall>u \<in> set (filter (\<lambda>u. u_tx_id u = t) (utxos s)).
       sent (parseFloat (u_value u)) = u_value u \<and> length (u_address u) \<le> 128"
    "\<forall>u \<in> set (filter (\<lambda>u. u_spent_in_tx u = Some t) (filter (\<lambda>u. u_tx_id u \<noteq> t) (utxos s))).
       sent (parseFloat (u_value u)) = u_value u \<and> length (u_address u) \<le> 128"
    by (simp_all add: typed_def)
  then show ?thesis
    by (simp only: rollbackTransaction_balance_raw [OF assms(2)] typed_sum)
qed

lemma undone_key: "map key (undone T us) = map key (filter (\<lambda>r. u_tx_id r \<notin> T) us)"
  by (simp add: undone_def comp_def if_distrib cong: if_cong)

lemma undone_distinct: "distinct (map key us) \<Longrightarrow> distinct (map key (undone T us))"
  by (simp add: undone_key distinct_map_filter)


lemma typed_undone:
  "\<forall>u \<in> set us. sent (parseFloat (u_value u)) = u_value u \<and> length (u_address u) \<le> 128 \<Longrightarrow>
     \<forall>u \<in> set (undone T us). sent (parseFloat (u_value u)) = u_value u \<and> length (u_address u) \<le> 128"
  by (auto simp: undone_def unspend_def)

lemma rollbackTransactions_fields:
  assumes "rollbackTransactions s ts = Inr s'"
  shows "blocks s' = blocks s"
    "transactions s' = filter (\<lambda>r. tr_id r \<notin> set ts) (transactions s)"
  using assms
proof (induction ts arbitrary: s)
  case Nil
  { case 1 then show ?case by simp }
  { case 2 then show ?case by simp }
next
  case (Cons t ts)
  { case 1
    then obtain s1 where s1: "rollbackTransaction s t = Inr s1" "rollbackTransactions s1 ts = Inr s'"
      by (auto split: sum.splits)
    from Cons.IH(1) [OF s1(2)] show ?case by (simp add: rollbackTransaction_fields [OF s1(1)]) }
  { case 2
    then obtain s1 where s1: "rollbackTransaction s t = Inr s1" "rollbackTransactions s1 ts = Inr s'"
      by (auto split: sum.splits)
    from Cons.IH(2) [OF s1(2)] show ?case
      by (simp add: rollbackTransaction_fields [OF s1(1)] conj_commute) }
qed


section \<open>The invariant under the statements of \<^verbatim>\<open>rollbackToHeight\<close>\<close>

lemma sum_undone:
  assumes "\<forall>u \<in> set us. (u_tx_id u = t \<longrightarrow> \<not> u_is_spent u) \<and>
                          (u_spent_in_tx u = Some t \<longrightarrow> u_is_spent u)"
  shows "sum_list (map u_value (filter (\<lambda>r. u_address r = a \<and> \<not> u_is_spent r) (undone {t} us)))
       = sum_list (map u_value (filter (\<lambda>r. u_address r = a \<and> \<not> u_is_spent r) us))
         - sum_list (map u_value (filter (\<lambda>u. u_address u = a)
             (filter (\<lambda>u. u_tx_id u = t) us)))
         + sum_list (map u_value (filter (\<lambda>u. u_address u = a)
             (filter (\<lambda>u. u_spent_in_tx u = Some t) (filter (\<lambda>u. u_tx_id u \<noteq> t) us))))"
  using assms
proof (induction us)
  case Nil
  then show ?case by (simp add: undone_def)
next
  case (Cons x us)
  from Cons.prems have "\<forall>u \<in> set us. (u_tx_id u = t \<longrightarrow> \<not> u_is_spent u) \<and>
                          (u_spent_in_tx u = Some t \<longrightarrow> u_is_spent u)" by simp
  from Cons.IH [OF this] have IH: "sum_list (map u_value (filter (\<lambda>r. u_address r = a \<and> \<not> u_is_spent r) (undone {t} us)))
       = sum_list (map u_value (filter (\<lambda>r. u_address r = a \<and> \<not> u_is_spent r) us))
         - sum_list (map u_value (filter (\<lambda>u. u_address u = a)
             (filter (\<lambda>u. u_tx_id u = t) us)))
         + sum_list (map u_value (filter (\<lambda>u. u_address u = a)
             (filter (\<lambda>u. u_spent_in_tx u = Some t) (filter (\<lambda>u. u_tx_id u \<noteq> t) us))))" .
  from Cons.prems have x: "u_tx_id x = t \<longrightarrow> \<not> u_is_spent x"
    "u_spent_in_tx x = Some t \<longrightarrow> u_is_spent x" by simp_all
  have step: "undone {t} (x # us) =
      (if u_tx_id x = t then undone {t} us
       else (if u_spent_in_tx x = Some t then unspend x else x) # undone {t} us)"
    by (simp add: undone_def)
  from x show ?case
    unfolding step by (simp add: IH unspend_def)
qed

lemma outputs_unspent:
  assumes "consistent s" "spends_ok s" "\<forall>r \<in> set (transactions s). tr_block_height r \<le> h"
    "\<forall>r \<in> set (transactions s). tr_id r = t \<longrightarrow> tr_block_height r = h"
    "u \<in> set (utxos s)" "u_tx_id u = t"
  shows "\<not> u_is_spent u"
proof
  assume "u_is_spent u"
  with assms(2,5) obtain t' where "u_spent_in_tx u = Some t'"
    unfolding spends_ok_def by blast
  with assms(2,5) obtain r' where r': "r' \<in> set (transactions s)"
    "u_block_height u < tr_block_height r'"
    unfolding spends_ok_def by blast
  from assms(1,5) obtain r where r: "r \<in> set (transactions s)" "tr_id r = u_tx_id u"
    "tr_block_height r = u_block_height u"
    unfolding consistent_def by blast
  with assms(4,6) have "u_block_height u = h" by simp
  with r' assms(3) show False by fastforce
qed

lemma consistent_rollbackTransaction:
  assumes "consistent s" "rollbackTransaction s t = Inr s'"
  shows "consistent s'"
proof -
  from assms have d: "distinct (map key (utxos s))" by (simp add: consistent_def)
  have u: "\<forall>u' \<in> set (undone {t} (utxos s)). \<exists>u \<in> set (utxos s). u_tx_id u \<noteq> t \<and>
             u_tx_id u' = u_tx_id u \<and> u_block_height u' = u_block_height u"
    by (auto simp: undone_def unspend_def)
  have "\<forall>u' \<in> set (undone {t} (utxos s)).
          \<exists>r \<in> set (filter (\<lambda>r. tr_id r \<noteq> t) (transactions s)).
             tr_id r = u_tx_id u' \<and> tr_block_height r = u_block_height u'"
  proof
    fix u' assume "u' \<in> set (undone {t} (utxos s))"
    with u obtain u0 where u0: "u0 \<in> set (utxos s)" "u_tx_id u0 \<noteq> t"
      "u_tx_id u' = u_tx_id u0" "u_block_height u' = u_block_height u0" by blast
    with assms obtain r where "r \<in> set (transactions s)" "tr_id r = u_tx_id u0"
      "tr_block_height r = u_block_height u0"
      unfolding consistent_def by blast
    with u0 show "\<exists>r \<in> set (filter (\<lambda>r. tr_id r \<noteq> t) (transactions s)).
             tr_id r = u_tx_id u' \<and> tr_block_height r = u_block_height u'"
      by auto
  qed
  with assms(1) undone_distinct [OF d, of "{t}"] show ?thesis
    unfolding consistent_def rollbackTransaction_fields [OF assms(2)]
      rollbackTransaction_utxos [OF d assms(2)]
    by (simp add: distinct_map_filter)
qed

lemma spends_ok_rollbackTransaction:
  assumes "consistent s" "spends_ok s" "rollbackTransaction s t = Inr s'"
  shows "spends_ok s'"
proof -
  from assms have d: "distinct (map key (utxos s))" by (simp add: consistent_def)
  show ?thesis
    unfolding spends_ok_def rollbackTransaction_fields [OF assms(3)]
      rollbackTransaction_utxos [OF d assms(3)]
  proof
    fix u' assume "u' \<in> set (undone {t} (utxos s))"
    then obtain u where u: "u \<in> set (utxos s)"
      and u': "u' = (if u_spent_in_tx u = Some t then unspend u else u)"
      by (auto simp: undone_def)
    show "(u_is_spent u' \<longleftrightarrow> u_spent_in_tx u' \<noteq> None) \<and>
          (\<forall>t'. u_spent_in_tx u' = Some t' \<longrightarrow>
             (\<exists>r \<in> set (filter (\<lambda>r. tr_id r \<noteq> t) (transactions s)).
                tr_id r = t' \<and> u_block_height u' < tr_block_height r))"
    proof (cases "u_spent_in_tx u = Some t")
      case True
      with u' show ?thesis by (simp add: unspend_def)
    next
      case False
      with u' have e: "u' = u" by simp
      from assms(2) u have 1: "u_is_spent u \<longleftrightarrow> u_spent_in_tx u \<noteq> None"
        and 2: "\<forall>t'. u_spent_in_tx u = Some t' \<longrightarrow>
           (\<exists>r \<in> set (transactions s). tr_id r = t' \<and> u_block_height u < tr_block_height r)"
        unfolding spends_ok_def by blast+
      from 2 False have "\<forall>t'. u_spent_in_tx u = Some t' \<longrightarrow>
             (\<exists>r \<in> set (filter (\<lambda>r. tr_id r \<noteq> t) (transactions s)).
                tr_id r = t' \<and> u_block_height u < tr_block_height r)"
        by fastforce
      with 1 e show ?thesis by simp
    qed
  qed
qed

lemma balanced_rollbackTransaction:
  assumes "consistent s" "spends_ok s" "balanced s" "typed s"
    "\<forall>u \<in> set (utxos s). u_tx_id u = t \<longrightarrow> \<not> u_is_spent u"
    "rollbackTransaction s t = Inr s'"
  shows "balanced s'"
proof -
  from assms have d: "distinct (map key (utxos s))" by (simp add: consistent_def)
  from assms(2,5) have "\<forall>u \<in> set (utxos s). (u_tx_id u = t \<longrightarrow> \<not> u_is_spent u) \<and>
                          (u_spent_in_tx u = Some t \<longrightarrow> u_is_spent u)"
    unfolding spends_ok_def by auto
  from sum_undone [OF this] assms(3) show ?thesis
    unfolding balanced_def unspent_sum_def rollbackTransaction_utxos [OF d assms(6)]
      rollbackTransaction_balance [OF assms(4,6)]
    by simp
qed

lemma typed_rollbackTransaction:
  assumes "consistent s" "typed s" "rollbackTransaction s t = Inr s'"
  shows "typed s'"
proof -
  from assms have d: "distinct (map key (utxos s))" by (simp add: consistent_def)
  from assms(2) show ?thesis
    unfolding typed_def rollbackTransaction_utxos [OF d assms(3)] by (rule typed_undone)
qed

lemma inv_rollbackTransaction:
  assumes "ledger_inv s" "\<forall>r \<in> set (transactions s). tr_block_height r \<le> h"
    "\<forall>r \<in> set (transactions s). tr_id r = t \<longrightarrow> tr_block_height r = h"
    "rollbackTransaction s t = Inr s'"
  shows "ledger_inv s'"
proof -
  from assms(1) have c: "consistent s" and sp: "spends_ok s" and b: "balanced s"
    and ho: "heights_ok s" and ty: "typed s" by (simp_all add: ledger_inv_def)
  have "\<forall>u \<in> set (utxos s). u_tx_id u = t \<longrightarrow> \<not> u_is_spent u"
    using outputs_unspent [OF c sp assms(2,3)] by blast
  from balanced_rollbackTransaction [OF c sp b ty this assms(4)]
    consistent_rollbackTransaction [OF c assms(4)] spends_ok_rollbackTransaction [OF c sp assms(4)]
    typed_rollbackTransaction [OF c ty assms(4)] ho
  show ?thesis
    by (simp add: ledger_inv_def heights_ok_def rollbackTransaction_fields [OF assms(4)])
qed

lemma inv_rollbackTransactions:
  assumes "ledger_inv s" "\<forall>r \<in> set (transactions s). tr_block_height r \<le> h"
    "\<forall>r \<in> set (transactions s). tr_id r \<in> set ts \<longrightarrow> tr_block_height r = h"
    "rollbackTransactions s ts = Inr s'"
  shows "ledger_inv s'"
  using assms
proof (induction ts arbitrary: s)
  case Nil
  then show ?case by simp
next
  case (Cons t ts)
  from Cons.prems(4) obtain s1 where
    s1: "rollbackTransaction s t = Inr s1" "rollbackTransactions s1 ts = Inr s'"
    by (auto split: sum.splits)
  have "ledger_inv s1"
    using Cons.prems(1,2,3) by (intro inv_rollbackTransaction [where h = h, OF _ _ _ s1(1)]) simp_all
  moreover have "\<forall>r \<in> set (transactions s1). tr_block_height r \<le> h"
    using Cons.prems(2) by (simp add: rollbackTransaction_fields [OF s1(1)])
  moreover have "\<forall>r \<in> set (transactions s1). tr_id r \<in> set ts \<longrightarrow> tr_block_height r = h"
    using Cons.prems(3) by (simp add: rollbackTransaction_fields [OF s1(1)])
  ultimately show ?case
    using Cons.IH s1(2) by simp
qed

lemma block_of_row:
  assumes "consistent s" "b \<in> set (blocks s)" "r \<in> set (transactions s)"
  shows "tr_block_id r = br_id b \<longleftrightarrow> tr_block_height r = br_height b"
proof -
  from assms(1,3) obtain b' where b': "b' \<in> set (blocks s)" "br_id b' = tr_block_id r"
    "br_height b' = tr_block_height r"
    unfolding consistent_def by blast
  from assms(1) have "inj_on br_id (set (blocks s))" "inj_on br_height (set (blocks s))"
    by (simp_all add: consistent_def distinct_map)
  with assms(2) b' show ?thesis by (metis inj_onD)
qed

lemma transactionsOfBlock_set:
  "set (transactionsOfBlock s bid) = tr_id ` {r \<in> set (transactions s). tr_block_id r = bid}"
  by (auto simp: transactionsOfBlock_def)

lemma transactionsOfBlock_mem:
  assumes "consistent s" "r \<in> set (transactions s)"
  shows "tr_id r \<in> set (transactionsOfBlock s bid) \<longleftrightarrow> tr_block_id r = bid"
proof
  assume "tr_id r \<in> set (transactionsOfBlock s bid)"
  then obtain r' where r': "r' \<in> set (transactions s)" "tr_block_id r' = bid" "tr_id r' = tr_id r"
    by (auto simp: transactionsOfBlock_set)
  from assms(1) have "inj_on tr_id (set (transactions s))"
    by (simp add: consistent_def distinct_map)
  with r' assms(2) have "r' = r" by (metis inj_onD)
  with r' show "tr_block_id r = bid" by simp
next
  assume "tr_block_id r = bid"
  with assms(2) show "tr_id r \<in> set (transactionsOfBlock s bid)"
    by (auto simp: transactionsOfBlock_set)
qed

lemma rollbackBlock_fields:
  assumes "rollbackBlock s bid h = Inr s'"
  shows "blocks s' = blocks s"
    "consistent s \<Longrightarrow> transactions s' = filter (\<lambda>r. tr_block_id r \<noteq> bid) (transactions s)"
proof -
  from assms have r: "rollbackTransactions s (transactionsOfBlock s bid) = Inr s'"
    by (simp add: rollbackBlock_def)
  show "blocks s' = blocks s"
    by (rule rollbackTransactions_fields(1) [OF r])
  assume c: "consistent s"
  show "transactions s' = filter (\<lambda>r. tr_block_id r \<noteq> bid) (transactions s)"
    unfolding rollbackTransactions_fields(2) [OF r]
    by (rule filter_cong [OF refl]) (simp add: transactionsOfBlock_mem [OF c])
qed

lemma inv_rollbackBlock:
  assumes "ledger_inv s" "b \<in> set (blocks s)"
    "\<forall>r \<in> set (transactions s). tr_block_height r \<le> br_height b"
    "rollbackBlock s (br_id b) (br_height b) = Inr s'"
  shows "ledger_inv s'"
proof -
  from assms(1) have c: "consistent s" by (simp add: ledger_inv_def)
  have "\<forall>r \<in> set (transactions s).
          tr_id r \<in> set (transactionsOfBlock s (br_id b)) \<longrightarrow> tr_block_height r = br_height b"
    using block_of_row [OF c assms(2)] transactionsOfBlock_mem [OF c] by blast
  from inv_rollbackTransactions [OF assms(1,3) this] assms(4) show ?thesis
    by (simp add: rollbackBlock_def)
qed

lemma inv_rollbackBlocks:
  assumes "ledger_inv s" "sorted (rev (map br_height bs))" "set bs \<subseteq> set (blocks s)"
    "\<forall>r \<in> set (transactions s). tr_block_height r \<le> k \<or> tr_block_height r \<in> br_height ` set bs"
    "\<forall>b \<in> set bs. k < br_height b"
    "rollbackBlocks s bs = Inr s'"
  shows "ledger_inv s' \<and> blocks s' = blocks s \<and>
         (\<forall>r \<in> set (transactions s'). tr_block_height r \<le> k)"
  using assms
proof (induction bs arbitrary: s)
  case Nil
  then show ?case by simp
next
  case (Cons b bs)
  from Cons.prems(6) obtain s1 where
    s1: "rollbackBlock s (br_id b) (br_height b) = Inr s1" "rollbackBlocks s1 bs = Inr s'"
    by (auto split: sum.splits)
  from Cons.prems(1) have c: "consistent s" by (simp add: ledger_inv_def)
  from Cons.prems(3) have b: "b \<in> set (blocks s)" by simp
  from Cons.prems(2) have le: "\<forall>x \<in> set bs. br_height x \<le> br_height b"
    and so: "sorted (rev (map br_height bs))"
    by (auto simp: sorted_append)
  from Cons.prems(5) have kb: "k < br_height b" by simp
  have top: "\<forall>r \<in> set (transactions s). tr_block_height r \<le> br_height b"
  proof
    fix r assume "r \<in> set (transactions s)"
    with Cons.prems(4) have "tr_block_height r \<le> k \<or> tr_block_height r \<in> br_height ` set (b # bs)"
      by blast
    with le kb show "tr_block_height r \<le> br_height b" by auto
  qed
  have 1: "ledger_inv s1" by (rule inv_rollbackBlock [OF Cons.prems(1) b top s1(1)])
  have 2: "blocks s1 = blocks s" by (rule rollbackBlock_fields(1) [OF s1(1)])
  have 3: "transactions s1 = filter (\<lambda>r. tr_block_id r \<noteq> br_id b) (transactions s)"
    by (rule rollbackBlock_fields(2) [OF s1(1) c])
  have 4: "\<forall>r \<in> set (transactions s1).
             tr_block_height r \<le> k \<or> tr_block_height r \<in> br_height ` set bs"
  proof
    fix r assume "r \<in> set (transactions s1)"
    then have r: "r \<in> set (transactions s)" "tr_block_id r \<noteq> br_id b" by (simp_all add: 3)
    with block_of_row [OF c b r(1)] have "tr_block_height r \<noteq> br_height b" by simp
    with Cons.prems(4) r(1)
    show "tr_block_height r \<le> k \<or> tr_block_height r \<in> br_height ` set bs" by auto
  qed
  from Cons.prems(3,5) have 5: "set bs \<subseteq> set (blocks s1)" "\<forall>b \<in> set bs. k < br_height b"
    by (simp_all add: 2)
  from Cons.IH [OF 1 so 5(1) 4 5(2) s1(2)] show ?case by (simp add: 2)
qed

lemma delete_blocks_above_settled:
  assumes "consistent s" "\<forall>r \<in> set (transactions s). tr_block_height r \<le> k"
  shows "delete_blocks_above s k = s\<lparr>blocks := filter (\<lambda>b. \<not> br_height b > k) (blocks s)\<rparr>"
proof -
  have t: "\<forall>r \<in> set (transactions s).
             tr_block_id r \<notin> br_id ` {b \<in> set (blocks s). br_height b > k}"
  proof
    fix r assume r: "r \<in> set (transactions s)"
    show "tr_block_id r \<notin> br_id ` {b \<in> set (blocks s). br_height b > k}"
    proof
      assume "tr_block_id r \<in> br_id ` {b \<in> set (blocks s). br_height b > k}"
      then obtain b where b: "b \<in> set (blocks s)" "br_height b > k" "tr_block_id r = br_id b"
        by auto
      with block_of_row [OF assms(1) b(1) r] assms(2) r show False by fastforce
    qed
  qed
  then have 1: "filter (\<lambda>r. tr_block_id r \<notin> br_id ` {b \<in> set (blocks s). br_height b > k})
                  (transactions s) = transactions s"
    by (simp add: filter_id_conv)
  from t have 2: "filter (\<lambda>r. tr_block_id r \<in> br_id ` {b \<in> set (blocks s). br_height b > k})
                  (transactions s) = []"
    by (simp add: filter_empty_conv)
  from t have 3: "{x \<in> set (transactions s).
             tr_block_id x \<in> br_id ` {x \<in> set (blocks s). k < br_height x}} = {}"
    by auto
  show ?thesis
    by (simp add: delete_blocks_above_def Let_def 1 2 3)
qed

lemma inv_delete_blocks_above:
  assumes "ledger_inv s" "\<forall>r \<in> set (transactions s). tr_block_height r \<le> k"
  shows "ledger_inv (delete_blocks_above s k)"
proof -
  from assms(1) have c: "consistent s" by (simp add: ledger_inv_def)
  have f: "\<forall>r \<in> set (transactions s). \<exists>b \<in> set (filter (\<lambda>b. \<not> br_height b > k) (blocks s)).
             br_id b = tr_block_id r \<and> br_height b = tr_block_height r"
  proof
    fix r assume r: "r \<in> set (transactions s)"
    with c obtain b where "b \<in> set (blocks s)" "br_id b = tr_block_id r"
      "br_height b = tr_block_height r"
      unfolding consistent_def by blast
    with assms(2) r show "\<exists>b \<in> set (filter (\<lambda>b. \<not> br_height b > k) (blocks s)).
             br_id b = tr_block_id r \<and> br_height b = tr_block_height r"
      by fastforce
  qed
  from c f have "consistent (s\<lparr>blocks := filter (\<lambda>b. \<not> br_height b > k) (blocks s)\<rparr>)"
    by (simp add: consistent_def distinct_map_filter)
  with assms(1) show ?thesis
    unfolding delete_blocks_above_settled [OF c assms(2)]
    by (simp add: ledger_inv_def spends_ok_def heights_ok_def balanced_def unspent_sum_def
        stored_balance_def typed_def)
qed

lemma removeOutputs_Inl: "removeOutputs s rs = Inl e \<Longrightarrow> e = DatabaseError"
  by (induction rs arbitrary: s) (auto split: sum.splits dest: updateAddressBalance_Inl)

lemma restoreInputs_Inl: "restoreInputs s rs = Inl e \<Longrightarrow> e = DatabaseError"
  by (induction rs arbitrary: s)
    (auto simp: Let_def split: sum.splits dest: updateAddressBalance_Inl)

lemma rollbackTransaction_Inl: "rollbackTransaction s t = Inl e \<Longrightarrow> e = DatabaseError"
  by (auto simp: rollbackTransaction_def Let_def split: sum.splits
      dest: removeOutputs_Inl restoreInputs_Inl)

lemma rollbackTransactions_Inl: "rollbackTransactions s ts = Inl e \<Longrightarrow> e = DatabaseError"
  by (induction ts arbitrary: s) (auto split: sum.splits dest: rollbackTransaction_Inl)

lemma rollbackBlocks_Inl: "rollbackBlocks s bs = Inl e \<Longrightarrow> e = DatabaseError"
  by (induction bs arbitrary: s)
    (auto simp: rollbackBlock_def split: sum.splits dest: rollbackTransactions_Inl)

lemma undoBlocks_Inl: "undoBlocks k s = Inl e \<Longrightarrow> e = DatabaseError"
  by (auto simp: undoBlocks_def split: if_splits sum.splits dest: rollbackBlocks_Inl)

lemma rollbackToHeight_result:
  "rollbackToHeight s k = (None, s') \<longleftrightarrow>
     int4 k \<and> (\<exists>s1. rollbackBlocks s (blocksToRemove s k) = Inr s1 \<and> s' = delete_blocks_above s1 k)"
  by (auto simp: rollbackToHeight_def atomically_def undoBlocks_def split: sum.splits)

lemma rollbackToHeight_cases:
  "rollbackToHeight s k = (Some DatabaseError, s) \<or> (\<exists>s'. rollbackToHeight s k = (None, s'))"
  by (auto simp: rollbackToHeight_def atomically_def split: sum.splits dest: undoBlocks_Inl)


lemma inv_rollbackToHeight_ok:
  assumes "ledger_inv s" "rollbackToHeight s k = (None, s')"
  shows "ledger_inv s'"
proof -
  from assms(2) obtain s1 where s1: "rollbackBlocks s (blocksToRemove s k) = Inr s1"
    and s': "s' = delete_blocks_above s1 k"
    by (auto simp: rollbackToHeight_result)
  from assms have c: "consistent s" by (simp add: ledger_inv_def)
  have 1: "set (blocksToRemove s k) \<subseteq> set (blocks s)" "\<forall>b \<in> set (blocksToRemove s k). k < br_height b"
    by (auto simp: blocksToRemove_set)
  have 2: "\<forall>r \<in> set (transactions s).
             tr_block_height r \<le> k \<or> tr_block_height r \<in> br_height ` set (blocksToRemove s k)"
  proof
    fix r assume "r \<in> set (transactions s)"
    with c obtain b where "b \<in> set (blocks s)" "br_height b = tr_block_height r"
      unfolding consistent_def by blast
    then show "tr_block_height r \<le> k \<or> tr_block_height r \<in> br_height ` set (blocksToRemove s k)"
      by (cases "tr_block_height r \<le> k") (force simp: blocksToRemove_set)+
  qed
  from inv_rollbackBlocks [OF assms(1) blocksToRemove_sorted 1(1) 2 1(2) s1]
  show ?thesis
    by (simp add: s' inv_delete_blocks_above)
qed

lemma inv_rollbackToHeight:
  assumes "ledger_inv s"
  shows "ledger_inv (snd (rollbackToHeight s k))"
  using rollbackToHeight_cases [of s k] assms inv_rollbackToHeight_ok by auto

lemma reachable_inv: "reachable H s \<Longrightarrow> ledger_inv s"
proof (induction rule: reachable.induct)
  case reachable_empty
  show ?case by (rule ledger_inv_empty)
next
  case (reachable_block s block s')
  then show ?case by (metis inv_submitBlock)
next
  case (reachable_rollback s targetHeight s')
  then show ?case by (metis inv_rollbackToHeight_ok)
qed

section \<open>Balance correctness\<close>

lemma reachable_ledger10: "reachable (\<lambda>x. x) ledger10"
  using reachable_block [OF reachable_empty submit_genesis10] .

lemma reachable_ledger64: "reachable (\<lambda>x. x) ledger64"
  using reachable_block [OF reachable_ledger10 submit_spend64] .

lemma reachable_submitBlock: "reachable H s \<Longrightarrow> reachable H (snd (submitBlock H s b))"
proof (cases "fst (submitBlock H s b)")
  case None
  assume "reachable H s"
  with None show ?thesis
    by (metis reachable_block prod.collapse)
next
  case (Some e)
  assume "reachable H s"
  with Some show ?thesis by (simp add: submitBlock_failed)
qed

lemma reachable_rollbackToHeight: "reachable H s \<Longrightarrow> reachable H (snd (rollbackToHeight s k))"
  using rollbackToHeight_cases [of s k] by (auto intro: reachable_rollback)

lemma rollback_result:
  "rollback s k = (if k < 0 \<or> currentHeight s < k then (Some (ValidationError InvalidRollbackHeight), s)
                   else rollbackToHeight s k)"
  by (simp add: rollback_def validateRollbackHeight_def)

lemma reachable_rollback_handler: "reachable H s \<Longrightarrow> reachable H (snd (rollback s k))"
  by (simp add: rollback_result reachable_rollbackToHeight)

lemma direct_spendInputs:
  assumes "consistent s" "balanced s" "typed s" "has_tx s (stored 64 t) h"
    "spendInputs s ins t = Inr s'"
  shows "consistent s' \<and> balanced s' \<and> typed s' \<and> has_tx s' (stored 64 t) h"
  using assms
proof (induction ins arbitrary: s)
  case Nil
  then show ?case by simp
next
  case (Cons i ins)
  from Cons.prems(5) obtain s1 where s1: "spendUTXO s i t = Inr s1" "spendInputs s1 ins t = Inr s'"
    by (auto split: sum.splits)
  from Cons.prems(1) have d: "distinct (map key (utxos s))" by (simp add: consistent_def)
  from Cons.IH [OF consistent_spendUTXO [OF Cons.prems(1) s1(1)]
      balanced_spendUTXO [OF Cons.prems(2,3) d s1(1)] typed_spendUTXO [OF Cons.prems(3) s1(1)]
      has_tx_spendUTXO [OF Cons.prems(4) s1(1)] s1(2)]
  show ?case .
qed

lemma direct_createOutputs:
  assumes "consistent s" "balanced s" "typed s" "has_tx s (stored 64 t) h"
    "createOutputs s t i outs h = Inr s'"
  shows "consistent s' \<and> balanced s' \<and> typed s'"
  using assms
proof (induction outs arbitrary: s i)
  case Nil
  then show ?case by simp
next
  case (Cons out outs)
  from Cons.prems(5) obtain s1 where s1: "createUTXO s t i out h = Inr s1"
    "createOutputs s1 t (i + 1) outs h = Inr s'"
    by (auto split: sum.splits)
  from Cons.prems(4)
  have "\<exists>r \<in> set (transactions s). tr_id r = stored 64 t \<and> tr_block_height r = h"
    by (simp add: has_tx_def)
  from Cons.IH [OF consistent_createUTXO [OF Cons.prems(1) s1(1) this]
      balanced_createUTXO [OF Cons.prems(2) s1(1)] typed_createUTXO [OF Cons.prems(3) s1(1)]
      has_tx_createUTXO [OF Cons.prems(4) s1(1)] s1(2)]
  show ?case .
qed

lemma direct_processTransactions:
  assumes "consistent s" "balanced s" "typed s" "processTransactions s ts h = Inr s'"
  shows "consistent s' \<and> balanced s' \<and> typed s'"
  using assms
proof (induction ts arbitrary: s)
  case Nil
  then show ?case by simp
next
  case (Cons t ts)
  from Cons.prems(4) obtain s1 s2 s3 where
    s1: "insert_transaction s (tx_id t) h = Inr s1"
    and s2: "spendInputs s1 (tx_inputs t) (tx_id t) = Inr s2"
    and s3: "createOutputs s2 (tx_id t) 0 (tx_outputs t) h = Inr s3"
    and s4: "processTransactions s3 ts h = Inr s'"
    by (auto simp: processTransaction_def split: sum.splits)
  from insert_transaction_Inr(1) [OF s1] have "has_tx s1 (stored 64 (tx_id t)) h"
    by (auto simp: has_tx_def)
  moreover from Cons.prems(3) have "typed s1"
    by (simp add: typed_def insert_transaction_Inr(3) [OF s1])
  ultimately have 2: "consistent s2" "balanced s2" "typed s2" "has_tx s2 (stored 64 (tx_id t)) h"
    using direct_spendInputs [OF consistent_insert_transaction [OF Cons.prems(1) s1]
      balanced_insert_transaction [OF Cons.prems(2) s1] _ _ s2]
    by simp_all
  from direct_createOutputs [OF 2 s3] have "consistent s3" "balanced s3" "typed s3" by simp_all
  from Cons.IH [OF this s4] show ?case .
qed

lemma direct_processBlock:
  assumes "consistent s" "balanced s" "typed s"
  shows "balanced (snd (processBlock s b))"
proof (cases "applyBlock b s")
  case (Inl e)
  with assms(2) show ?thesis by (simp add: processBlock_def atomically_def)
next
  case (Inr s')
  then obtain s1 where s1: "insert_block s (blk_id b) (blk_height b) = Inr s1"
    and s2: "processTransactions s1 (blk_transactions b) (blk_height b) = Inr s'"
    by (auto simp: applyBlock_def split: sum.splits)
  from assms(3) have "typed s1" by (simp add: typed_def insert_block_Inr(3) [OF s1])
  from direct_processTransactions [OF consistent_insert_block [OF assms(1) s1]
      balanced_insert_block [OF assms(2) s1] this s2] Inr
  show ?thesis by (simp add: processBlock_def atomically_def)
qed

text \<open>
  C3, as stated, fails: \<open>processBlock\<close> applies the block \<open>chained\<close>, which validation
  rejects, to the empty ledger, and \<open>rollbackToHeight 0\<close> completes on the ledger it
  leaves; the address \<open>x\<close> then has the stored balance -10 and owns no output. The
  rollback subtracts the value of the output \<open>a:0\<close>, which the rollback of \<open>b\<close> would have
  unspent, a second time.
\<close>

theorem balance_correctness_counterexample:
  "validateBlock (\<lambda>x. x) empty_store chained = Some (ValidationError InputNotFound) \<and>
   fst (processBlock empty_store chained) = None \<and>
   stored_balance (snd (processBlock empty_store chained)) ''x'' = 0 \<and>
   unspent_sum (snd (processBlock empty_store chained)) ''x'' = 0 \<and>
   fst (rollbackToHeight (snd (processBlock empty_store chained)) 0) = None \<and>
   utxos (snd (rollbackToHeight (snd (processBlock empty_store chained)) 0)) = [] \<and>
   unspent_sum (snd (rollbackToHeight (snd (processBlock empty_store chained)) 0)) ''x'' = 0 \<and>
   stored_balance (snd (rollbackToHeight (snd (processBlock empty_store chained)) 0)) ''x'' = - 10 \<and>
   address_balances (snd (rollbackToHeight (snd (processBlock empty_store chained)) 0)) ''x''
     = Some (- 10)"
  by code_simp

text \<open>
  C3, amended. On every ledger built from the empty one by accepted submissions, each block
  validated by \<open>validateBlock\<close> before \<open>processBlock\<close> applied it, and by rollbacks, the
  stored balance of every address equals the sum of the values of the unspent outputs that
  the address owns; the same holds after every operation on such a ledger: a submission,
  accepted or not, a call of \<open>processBlock\<close> with any block, and a call of
  \<open>rollbackToHeight\<close> or of the rollback handler, whether it completes or throws.
  \<open>getAddressBalance\<close> returns that sum as \<^verbatim>\<open>parseFloat\<close> reads it.
\<close>

theorem balance_correctness:
  "reachable H s \<Longrightarrow>
     stored_balance s a = unspent_sum s a \<and>
     stored_balance (snd (submitBlock H s b)) a = unspent_sum (snd (submitBlock H s b)) a \<and>
     stored_balance (snd (processBlock s b)) a = unspent_sum (snd (processBlock s b)) a \<and>
     stored_balance (snd (rollbackToHeight s k)) a = unspent_sum (snd (rollbackToHeight s k)) a \<and>
     stored_balance (snd (rollback s k)) a = unspent_sum (snd (rollback s k)) a \<and>
     getAddressBalance s a = parseFloat (unspent_sum s a)"
proof -
  assume r: "reachable H s"
  have "balanced s'" if "reachable H s'" for s'
    using reachable_inv [OF that] by (simp add: ledger_inv_def)
  from this [OF r] this [OF reachable_submitBlock [OF r]]
    this [OF reachable_rollbackToHeight [OF r]] this [OF reachable_rollback_handler [OF r]]
    direct_processBlock [of s b] reachable_inv [OF r]
  show ?thesis by (simp add: balanced_def ledger_inv_def getAddressBalance_def stored_balance_def)
qed

theorem balance_correctness_witness:
  "reachable (\<lambda>x. x) ledger64 \<and>
   stored_balance ledger64 ''addr1'' = 0 \<and> unspent_sum ledger64 ''addr1'' = 0 \<and>
   stored_balance (snd (rollbackToHeight ledger64 1)) ''addr1'' = 10 \<and>
   unspent_sum (snd (rollbackToHeight ledger64 1)) ''addr1'' = 10 \<and>
   stored_balance (snd (submitBlock (\<lambda>x. x) ledger64 again)) ''addr2'' = 6 \<and>
   unspent_sum (snd (submitBlock (\<lambda>x. x) ledger64 again)) ''addr2'' = 6 \<and>
   getAddressBalance ledger64 ''addr2'' = 6"
proof -
  have 1: "stored_balance ledger64 ''addr1'' = 0"
    "stored_balance (snd (rollbackToHeight ledger64 1)) ''addr1'' = 10"
    "stored_balance (snd (submitBlock (\<lambda>x. x) ledger64 again)) ''addr2'' = 6"
    "getAddressBalance ledger64 ''addr2'' = 6"
    by code_simp+
  from balance_correctness [OF reachable_ledger64, of "''addr1''" again 1]
    balance_correctness [OF reachable_ledger64, of "''addr2''" again 1] 1 reachable_ledger64
  show ?thesis by simp
qed

section \<open>The rows a block adds\<close>








section \<open>Spending within a block\<close>




lemma ball_empty_list: "\<forall>p \<in> set []. P p"
  by simp


section \<open>Double spends\<close>

lemma gone_spendUTXO_self:
  assumes "spendUTXO s i t = Inr s'"
  shows "gone s' (input_key i)" "\<not> gone s (input_key i)"
proof -
  from spendUTXO_Inr(1) [OF assms] obtain u where u: "u \<in> set (utxos s)"
    "key u = (in_txId i, in_index i)" "\<not> u_is_spent u" by blast
  then show "\<not> gone s (input_key i)" by (auto simp: gone_def input_key_def)
  let ?f = "\<lambda>r. if key r = (in_txId i, in_index i)
                  then r\<lparr>u_is_spent := True, u_spent_in_tx := Some (stored 64 t)\<rparr> else r"
  from u(1) have "?f u \<in> set (utxos s')"
    unfolding spendUTXO_Inr(2) [OF assms] set_map by (rule imageI)
  moreover from u(2) have "key (?f u) = input_key i" by (simp add: input_key_def)
  ultimately have "\<exists>u \<in> set (utxos s'). key u = input_key i" by blast
  moreover have "\<forall>u \<in> set (utxos s'). key u = input_key i \<longrightarrow> u_is_spent u"
    by (auto simp: spendUTXO_Inr(2) [OF assms] input_key_def)
  ultimately show "gone s' (input_key i)" by (simp add: gone_def)
qed

lemma gone_spendUTXO:
  assumes "gone s k" "spendUTXO s i t = Inr s'"
  shows "gone s' k"
proof -
  let ?f = "\<lambda>r. if key r = (in_txId i, in_index i)
                  then r\<lparr>u_is_spent := True, u_spent_in_tx := Some (stored 64 t)\<rparr> else r"
  from assms(1) obtain u where u: "u \<in> set (utxos s)" "key u = k" by (auto simp: gone_def)
  from u(1) have "?f u \<in> set (utxos s')"
    unfolding spendUTXO_Inr(2) [OF assms(2)] set_map by (rule imageI)
  moreover from u(2) have "key (?f u) = k" by simp
  ultimately have "\<exists>u \<in> set (utxos s'). key u = k" by blast
  moreover from assms(1) have "\<forall>u \<in> set (utxos s'). key u = k \<longrightarrow> u_is_spent u"
    by (auto simp: spendUTXO_Inr(2) [OF assms(2)] gone_def)
  ultimately show ?thesis by (simp add: gone_def)
qed

lemma gone_createUTXO:
  assumes "gone s k" "createUTXO s t i out h = Inr s'"
  shows "gone s' k"
proof -
  from assms(1) obtain u where "u \<in> set (utxos s)" "key u = k" by (auto simp: gone_def)
  then have "k \<in> key ` set (utxos s)" by blast
  with createUTXO_Inr(2) [OF assms(2)] have "k \<noteq> (stored 64 t, i)" by blast
  then have "key \<lparr>u_tx_id = stored 64 t, u_output_index = i,
             u_address = stored 128 (out_address out),
             u_value = sent (number (out_value out)), u_is_spent = False, u_spent_in_tx = None,
             u_block_height = h\<rparr> \<noteq> k" by (simp add: key_def)
  with assms(1) show ?thesis
    by (simp add: gone_def createUTXO_Inr(1) [OF assms(2)])
qed

lemma spendInputs_gone:
  "spendInputs s ins t = Inr s' \<Longrightarrow>
     distinct (map input_key ins) \<and>
     (\<forall>i \<in> set ins. gone s' (input_key i) \<and> \<not> gone s (input_key i)) \<and>
     (\<forall>k. gone s k \<longrightarrow> gone s' k)"
proof (induction ins arbitrary: s)
  case Nil
  then show ?case by simp
next
  case (Cons i ins)
  from Cons.prems obtain s1 where s1: "spendUTXO s i t = Inr s1" "spendInputs s1 ins t = Inr s'"
    by (auto split: sum.splits)
  note g = gone_spendUTXO_self [OF s1(1)] and m = gone_spendUTXO [OF _ s1(1)]
  from Cons.IH [OF s1(2)] have IH: "distinct (map input_key ins)"
    "\<forall>j \<in> set ins. gone s' (input_key j) \<and> \<not> gone s1 (input_key j)"
    "\<forall>k. gone s1 k \<longrightarrow> gone s' k" by simp_all
  from IH(2) g(1) have 1: "input_key i \<notin> input_key ` set ins" by auto
  from IH(2) m have 2: "\<forall>j \<in> set ins. \<not> gone s (input_key j)" by blast
  from IH(3) m have 3: "\<forall>k. gone s k \<longrightarrow> gone s' k" by blast
  from IH(3) g(1) have 4: "gone s' (input_key i)" by blast
  from 1 IH(1) have 5: "distinct (map input_key (i # ins))" by simp
  from 4 g(2) IH(2) 2 have 6: "\<forall>j \<in> set (i # ins). gone s' (input_key j) \<and> \<not> gone s (input_key j)"
    by simp
  from 5 6 3 show ?case by blast
qed

lemma createOutputs_gone:
  "createOutputs s t i outs h = Inr s' \<Longrightarrow> gone s k \<Longrightarrow> gone s' k"
proof (induction outs arbitrary: s i)
  case Nil
  then show ?case by simp
next
  case (Cons out outs)
  from Cons.prems(1) obtain s1 where s1: "createUTXO s t i out h = Inr s1"
    "createOutputs s1 t (i + 1) outs h = Inr s'"
    by (auto split: sum.splits)
  from Cons.IH [OF s1(2) gone_createUTXO [OF Cons.prems(2) s1(1)]] show ?case .
qed

lemma processTransaction_gone:
  assumes "processTransaction s t h = Inr s'"
  shows "distinct (map input_key (tx_inputs t))"
    "\<forall>i \<in> set (tx_inputs t). gone s' (input_key i) \<and> \<not> gone s (input_key i)"
    "\<forall>k. gone s k \<longrightarrow> gone s' k"
proof -
  from assms obtain s1 s2 where
    s1: "insert_transaction s (tx_id t) h = Inr s1"
    and s2: "spendInputs s1 (tx_inputs t) (tx_id t) = Inr s2"
    and s3: "createOutputs s2 (tx_id t) 0 (tx_outputs t) h = Inr s'"
    by (auto simp: processTransaction_def split: sum.splits)
  have e: "gone s1 k \<longleftrightarrow> gone s k" for k
    by (simp add: gone_def insert_transaction_Inr(3) [OF s1])
  from spendInputs_gone [OF s2] createOutputs_gone [OF s3]
  show "distinct (map input_key (tx_inputs t))"
    "\<forall>i \<in> set (tx_inputs t). gone s' (input_key i) \<and> \<not> gone s (input_key i)"
    "\<forall>k. gone s k \<longrightarrow> gone s' k"
    by (simp_all add: e)
qed

lemma processTransactions_gone:
  "processTransactions s ts h = Inr s' \<Longrightarrow>
     distinct (map input_key (concat (map tx_inputs ts))) \<and>
     (\<forall>i \<in> set (concat (map tx_inputs ts)). gone s' (input_key i) \<and> \<not> gone s (input_key i)) \<and>
     (\<forall>k. gone s k \<longrightarrow> gone s' k)"
proof (induction ts arbitrary: s)
  case Nil
  then show ?case by simp
next
  case (Cons t ts)
  let ?rest = "concat (map tx_inputs ts)"
  from Cons.prems obtain s1 where s1: "processTransaction s t h = Inr s1"
    "processTransactions s1 ts h = Inr s'"
    by (auto split: sum.splits)
  note p = processTransaction_gone [OF s1(1)]
  note IH = Cons.IH [OF s1(2)]
  from IH have d: "distinct (map input_key ?rest)" by (rule conjunct1)
  from IH have g: "\<forall>i \<in> set ?rest. gone s' (input_key i) \<and> \<not> gone s1 (input_key i)"
    by (rule conjunct1 [OF conjunct2])
  from IH have m: "\<forall>k. gone s1 k \<longrightarrow> gone s' k"
    by (rule conjunct2 [OF conjunct2])
  have 1: "input_key x \<noteq> input_key y" if "x \<in> set (tx_inputs t)" "y \<in> set ?rest" for x y
  proof
    assume e: "input_key x = input_key y"
    from bspec [OF p(2) that(1)] have "gone s1 (input_key x)" by (rule conjunct1)
    moreover from bspec [OF g that(2)] have "\<not> gone s1 (input_key y)" by (rule conjunct2)
    ultimately show False using e by simp
  qed
  then have "input_key ` set (tx_inputs t) \<inter> input_key ` set ?rest = {}"
    by (fastforce simp: disjoint_iff)
  with p(1) d have 5: "distinct (map input_key (tx_inputs t @ ?rest))"
    by (simp only: map_append distinct_append set_map simp_thms)
  have 6: "gone s' (input_key i) \<and> \<not> gone s (input_key i)" if "i \<in> set (tx_inputs t @ ?rest)" for i
  proof (cases "i \<in> set (tx_inputs t)")
    case True
    from bspec [OF p(2) True] have "gone s1 (input_key i)" "\<not> gone s (input_key i)"
      by (rule conjunct1, rule conjunct2)
    with m [rule_format, of "input_key i"] show ?thesis by simp
  next
    case False
    with that have "i \<in> set ?rest" by simp
    from bspec [OF g this] have a: "gone s' (input_key i)" "\<not> gone s1 (input_key i)"
      by (rule conjunct1, rule conjunct2)
    from a(2) p(3) [rule_format, of "input_key i"] have "\<not> gone s (input_key i)" by blast
    with a show ?thesis by simp
  qed
  have 7: "gone s' k" if "gone s k" for k
    using m [rule_format, OF p(3) [rule_format, OF that]] .
  have c: "concat (map tx_inputs (t # ts)) = tx_inputs t @ ?rest" by simp
  from 6 have b6: "\<forall>i \<in> set (tx_inputs t @ ?rest). gone s' (input_key i) \<and> \<not> gone s (input_key i)"
    by (rule ballI)
  from 7 have b7: "\<forall>k. gone s k \<longrightarrow> gone s' k" by (intro allI impI)
  from 5 b6 b7 show ?case unfolding c by (intro conjI)
qed

lemma applyBlock_gone:
  assumes "applyBlock b s = Inr s'"
  shows "distinct (map input_key (block_inputs b))"
    "\<forall>i \<in> set (block_inputs b). gone s' (input_key i)"
    "\<forall>k. gone s k \<longrightarrow> gone s' k"
proof -
  from assms obtain s1 where s1: "insert_block s (blk_id b) (blk_height b) = Inr s1"
    and s2: "processTransactions s1 (blk_transactions b) (blk_height b) = Inr s'"
    by (auto simp: applyBlock_def split: sum.splits)
  have e: "gone s1 k \<longleftrightarrow> gone s k" for k
    by (simp add: gone_def insert_block_Inr(3) [OF s1])
  from processTransactions_gone [OF s2]
  show "distinct (map input_key (block_inputs b))"
    "\<forall>i \<in> set (block_inputs b). gone s' (input_key i)"
    "\<forall>k. gone s k \<longrightarrow> gone s' k"
    by (simp_all add: e block_inputs_def)
qed

lemma submitAll_gone:
  "submitAll H s bs = Some s' \<Longrightarrow> gone s k \<Longrightarrow> gone s' k"
proof (induction bs arbitrary: s)
  case Nil
  then show ?case by simp
next
  case (Cons b bs)
  from Cons.prems(1) obtain s1 where s1: "submitBlock H s b = (None, s1)"
    "submitAll H s1 bs = Some s'"
    by (auto split: prod.splits option.splits)
  from s1(1) have "applyBlock b s = Inr s1" by (simp add: submitBlock_result)
  from applyBlock_gone(3) [OF this] Cons.prems(2) have "gone s1 k" by blast
  from Cons.IH [OF s1(2) this] show ?case .
qed

lemma gone_unresolved: "gone s (input_key i) \<Longrightarrow> \<not> resolves s i"
  by (auto simp: gone_def resolves_def)

text \<open>
  C6, as stated, fails for two references in the same block. The transaction of
  \<open>twice10\<close> names \<open>tx1:0\<close>, of value 10, in two inputs and has one output of 10:
  validation reads the value twice, and the submission is answered with \<open>ValueMismatch\<close>.
  The transaction of \<open>twice\<close> has an output of 20 instead: the block passes validation
  and fails inside \<open>processBlock\<close>, with the plain error of \<open>spendUTXO\<close> and not with a
  validation error.
\<close>

theorem double_spend_counterexample:
  "map input_key (block_inputs twice10) = [(''tx1'', 0), (''tx1'', 0)] \<and>
   submitBlock (\<lambda>x. x) ledger10 twice10 = (Some (ValidationError ValueMismatch), ledger10) \<and>
   map input_key (block_inputs twice) = [(''tx1'', 0), (''tx1'', 0)] \<and>
   validateBlock (\<lambda>x. x) ledger10 twice = None \<and>
   submitBlock (\<lambda>x. x) ledger10 twice = (Some (Error InputNotFound), ledger10)"
  by (simp add: fixture_defs ledger_defs block_inputs_def input_key_def)

text \<open>
  C6, amended. A block that names the same output in two of its inputs is never accepted
  and leaves the store as it was. Once an accepted block has spent an output, and whatever
  blocks are accepted after it, the output no longer resolves, and a block with an input
  that names it fails validation and leaves the store as it was; the submission is
  answered with the validation error \<open>InputNotFound\<close> when the height and id checks pass,
  the transactions before the offending one validate and the inputs before the offending
  one in its transaction resolve.
\<close>

theorem double_spend_rejected:
  "(\<not> distinct (map input_key (block_inputs b)) \<longrightarrow>
      fst (submitBlock H s b) \<noteq> None \<and> snd (submitBlock H s b) = s) \<and>
   (submitBlock H s0 b1 = (None, s1) \<and> i1 \<in> set (block_inputs b1) \<and>
    submitAll H s1 bs = Some s2 \<and> blk_transactions b2 = pre @ t2 # post \<and>
    tx_inputs t2 = ipre @ i2 # ipost \<and> input_key i2 = input_key i1 \<longrightarrow>
      \<not> resolves s2 i2 \<and> validateBlock H s2 b2 \<noteq> None \<and>
      fst (submitBlock H s2 b2) \<noteq> None \<and> snd (submitBlock H s2 b2) = s2 \<and>
      (blk_height b2 = currentHeight s2 + 1 \<and> blk_id b2 = expectedId H b2 \<and>
       (\<forall>p \<in> set pre. validateTransaction s2 p = None) \<and> (\<forall>j \<in> set ipre. resolves s2 j) \<longrightarrow>
         submitBlock H s2 b2 = (Some (ValidationError InputNotFound), s2)))"
proof -
  have same: "fst (submitBlock H s b) \<noteq> None \<and> snd (submitBlock H s b) = s"
    if "\<not> distinct (map input_key (block_inputs b))"
  proof -
    from that applyBlock_gone(1) have "\<nexists>s'. applyBlock b s = Inr s'" by blast
    then have "fst (submitBlock H s b) \<noteq> None" by (simp add: submitBlock_accepted)
    then show ?thesis by (simp add: submitBlock_failed)
  qed
  have later: "\<not> resolves s2 i2 \<and> validateBlock H s2 b2 \<noteq> None \<and>
      fst (submitBlock H s2 b2) \<noteq> None \<and> snd (submitBlock H s2 b2) = s2 \<and>
      (blk_height b2 = currentHeight s2 + 1 \<and> blk_id b2 = expectedId H b2 \<and>
       (\<forall>p \<in> set pre. validateTransaction s2 p = None) \<and> (\<forall>j \<in> set ipre. resolves s2 j) \<longrightarrow>
         submitBlock H s2 b2 = (Some (ValidationError InputNotFound), s2))"
    if a: "submitBlock H s0 b1 = (None, s1) \<and> i1 \<in> set (block_inputs b1) \<and>
      submitAll H s1 bs = Some s2 \<and> blk_transactions b2 = pre @ t2 # post \<and>
      tx_inputs t2 = ipre @ i2 # ipost \<and> input_key i2 = input_key i1"
  proof -
    from a have ap: "applyBlock b1 s0 = Inr s1" and va: "validateBlock H s0 b1 = None"
      by (simp_all add: submitBlock_result)
    from applyBlock_gone(2) [OF ap] a have "gone s1 (input_key i1)" by blast
    with a submitAll_gone have "gone s2 (input_key i2)" by metis
    then have n: "\<not> resolves s2 i2" by (rule gone_unresolved)
    from a obtain t1 where "t1 \<in> set (blk_transactions b1)" "i1 \<in> set (tx_inputs t1)"
      by (auto simp: block_inputs_def)
    with va validated_keys have "resolves s0 i1" by (auto simp: validateBlock_None)
    with a have r: "int4 (in_index i2)" by (simp add: resolves_def input_key_def)
    from a have t2: "t2 \<in> set (blk_transactions b2)" "i2 \<in> set (tx_inputs t2)" by simp_all
    with n validated_keys have "validateTransaction s2 t2 \<noteq> None" by blast
    with t2 have v: "validateBlock H s2 b2 \<noteq> None" by (auto simp: validateBlock_None)
    then have f: "fst (submitBlock H s2 b2) \<noteq> None" by (simp add: submitBlock_accepted)
    then have u: "snd (submitBlock H s2 b2) = s2" by (rule submitBlock_failed)
    have p: "submitBlock H s2 b2 = (Some (ValidationError InputNotFound), s2)"
      if b: "blk_height b2 = currentHeight s2 + 1 \<and> blk_id b2 = expectedId H b2 \<and>
       (\<forall>p \<in> set pre. validateTransaction s2 p = None) \<and> (\<forall>j \<in> set ipre. resolves s2 j)"
    proof -
      from a b n r have "validateTransaction s2 t2 = Some (ValidationError InputNotFound)"
        using validateTransaction_first_failure [of t2 ipre i2 ipost s2] by simp
      with a b show ?thesis
        by (intro validateBlock_first_failure [where pre = pre and t = t2 and post = post])
          simp_all
    qed
    from n v f u p show ?thesis by blast
  qed
  from same later show ?thesis by blast
qed

theorem double_spend_rejected_witness:
  "\<not> distinct (map input_key (block_inputs twice)) \<and>
   fst (submitBlock (\<lambda>x. x) ledger10 twice) \<noteq> None \<and>
   snd (submitBlock (\<lambda>x. x) ledger10 twice) = ledger10 \<and>
   submitBlock (\<lambda>x. x) ledger10 spend64 = (None, ledger64) \<and>
   hd (block_inputs spend64) \<in> set (block_inputs spend64) \<and>
   submitAll (\<lambda>x. x) ledger64 [] = Some ledger64 \<and>
   input_key (hd (tx_inputs (hd (blk_transactions again)))) = input_key (hd (block_inputs spend64)) \<and>
   \<not> resolves ledger64 (hd (tx_inputs (hd (blk_transactions again)))) \<and>
   submitBlock (\<lambda>x. x) ledger64 again = (Some (ValidationError InputNotFound), ledger64)"
proof -
  let ?t = "hd (blk_transactions again)"
  have a: "\<not> distinct (map input_key (block_inputs twice))"
    by code_simp
  from double_spend_rejected [of twice "\<lambda>x. x" ledger10] a
  have 1: "fst (submitBlock (\<lambda>x. x) ledger10 twice) \<noteq> None"
    "snd (submitBlock (\<lambda>x. x) ledger10 twice) = ledger10"
    by blast+
  have b2: "submitAll (\<lambda>x. x) ledger64 [] = Some ledger64" by simp
  have "hd (block_inputs spend64) \<in> set (block_inputs spend64)"
    "blk_transactions again = [] @ ?t # []"
    "tx_inputs ?t = [] @ hd (tx_inputs ?t) # []"
    "input_key (hd (tx_inputs ?t)) = input_key (hd (block_inputs spend64))"
    "blk_height again = currentHeight ledger64 + 1"
    "blk_id again = expectedId (\<lambda>x. x) again"
    by code_simp+
  with b2 have b: "hd (block_inputs spend64) \<in> set (block_inputs spend64)"
    "submitAll (\<lambda>x. x) ledger64 [] = Some ledger64"
    "blk_transactions again = [] @ ?t # []"
    "tx_inputs ?t = [] @ hd (tx_inputs ?t) # []"
    "input_key (hd (tx_inputs ?t)) = input_key (hd (block_inputs spend64))"
    "blk_height again = currentHeight ledger64 + 1"
    "blk_id again = expectedId (\<lambda>x. x) again"
    by blast+
  from submit_spend64 b(1-5) have b': "submitBlock (\<lambda>x. x) ledger10 spend64 = (None, ledger64) \<and>
    hd (block_inputs spend64) \<in> set (block_inputs spend64) \<and>
    submitAll (\<lambda>x. x) ledger64 [] = Some ledger64 \<and> blk_transactions again = [] @ ?t # [] \<and>
    tx_inputs ?t = [] @ hd (tx_inputs ?t) # [] \<and>
    input_key (hd (tx_inputs ?t)) = input_key (hd (block_inputs spend64))"
    by (intro conjI)
  from b(6,7) have b'': "blk_height again = currentHeight ledger64 + 1 \<and>
    blk_id again = expectedId (\<lambda>x. x) again \<and>
    (\<forall>p \<in> set []. validateTransaction ledger64 p = None) \<and>
    (\<forall>j \<in> set []. resolves ledger64 j)"
    by (intro conjI ball_empty_list)
  from double_spend_rejected [of b "\<lambda>x. x" s ledger10 spend64 ledger64
      "hd (block_inputs spend64)" "[]" ledger64 again "[]" ?t "[]" "[]" "hd (tx_inputs ?t)" "[]"]
    b' b''
  have 2: "\<not> resolves ledger64 (hd (tx_inputs ?t))"
    "submitBlock (\<lambda>x. x) ledger64 again = (Some (ValidationError InputNotFound), ledger64)"
    by blast+
  from a 1 submit_spend64 b(1,2,5) 2 show ?thesis by (intro conjI)
qed

section \<open>Undoing the block just applied\<close>












section \<open>The rollback reads the ledger only\<close>













lemma same_ledger_trans: "same_ledger s t \<Longrightarrow> same_ledger t u \<Longrightarrow> same_ledger s u"
  by (simp add: same_ledger_def)



section \<open>Rolling back past a block\<close>






lemma stored_balance_blocks [simp]:
  "stored_balance (s\<lparr>blocks := bs\<rparr>) a = stored_balance s a"
  by (simp add: stored_balance_def)





section \<open>Applying a block reads the balances only to update them\<close>















section \<open>When a rollback completes\<close>


























section \<open>The rollback to height 0\<close>







section \<open>The inverse law\<close>








end
